theory Spec2Isabelle
  imports Main "HOL-Library.AList"
begin

section \<open>Request coalescing and caching (src/utils/logger.ts)\<close>

text \<open>
  The two classes \<^verbatim>\<open>RequestCoalescer\<close> and \<^verbatim>\<open>CachedRequestCoalescer\<close> are embedded
  as state-passing functions. A JavaScript \<^verbatim>\<open>Map\<close> is an association list in insertion
  order (\<open>AList.update\<close> keeps the position of a key that is already present, as
  \<^verbatim>\<open>Map.prototype.set\<close> does); its \<^verbatim>\<open>size\<close> is the length of the list.

  The run-time system is part of the state: the promises created by \<^verbatim>\<open>execute\<close> live in a
  heap (a list, a promise being identified by its index), and every call of a request
  thunk is appended to a log, with the key it was called for. The callbacks that
  \<^verbatim>\<open>execute\<close> chains on the promise returned by \<^verbatim>\<open>request()\<close> run when that promise
  settles; this is the function \<open>settle\<close>, which the environment applies with the
  outcome of the request. Each callback body is synchronous, so it is one atomic step of
  the single-threaded event loop, as is the synchronous part of every method.

  Numbers (\<^verbatim>\<open>ttl\<close>, \<^verbatim>\<open>maxSize\<close>, \<^verbatim>\<open>Date.now()\<close>) are integers; \<^verbatim>\<open>Date.now()\<close> is the
  parameter \<open>now\<close> of the steps that read the clock. A request thunk is called
  synchronously by \<^verbatim>\<open>execute\<close>: it either hands back a promise or throws; it does not call
  the coalescer itself.
\<close>

subsection \<open>Keys, thunks and promises\<close>

text \<open>
  A key is any JavaScript value. Two values are told apart from the others by the code:
  \<^verbatim>\<open>undefined\<close>, which \<^verbatim>\<open>setCacheEntry\<close> tests for, and \<^verbatim>\<open>NaN\<close>, which a \<^verbatim>\<open>Map\<close> finds
  (it compares keys with SameValueZero, here the equality of HOL) and
  \<^verbatim>\<open>Array.prototype.indexOf\<close> does not (it compares with \<^verbatim>\<open>===\<close>).
\<close>

datatype 'a js = Undefined | NaN | Val 'a

definition strict_eq :: "'a js \<Rightarrow> 'a js \<Rightarrow> bool" where
  "strict_eq x y = (x = y \<and> x \<noteq> NaN)"

text \<open>
  A request thunk, by a label: called, it returns a promise, or it throws an error before
  returning one.
\<close>

datatype ('r, 'e) thunk = Thunk 'r | Thrower 'r 'e

type_synonym pid = nat

text \<open>How the promise returned by \<^verbatim>\<open>request()\<close> settles.\<close>

datatype ('v, 'e) settlement = Resolves 'v | Rejects 'e

datatype ('v, 'e) promise_state = Pending | Fulfilled 'v | Rejected 'e

text \<open>
  A promise built by \<^verbatim>\<open>request().then(...).catch(...)\<close>: the key captured by the two
  closures, and the state of the promise.
\<close>

record ('k, 'v, 'e) promise =
  pkey :: "'k js"
  pstate :: "('v, 'e) promise_state"

fun settled :: "('v, 'e) settlement \<Rightarrow> ('v, 'e) promise_state" where
  "settled (Resolves result) = Fulfilled result"
| "settled (Rejects error) = Rejected error"

definition in_flight :: "('k, 'v, 'e) promise list \<Rightarrow> pid \<Rightarrow> bool" where
  "in_flight heap p = (p < length heap \<and> (case pstate (heap ! p) of Pending \<Rightarrow> True | _ \<Rightarrow> False))"

text \<open>
  What the \<^verbatim>\<open>async\<close> method \<^verbatim>\<open>execute\<close> hands to its caller: a promise resolved with a
  value, a promise that follows a promise of the heap, or a promise rejected with the error
  that the body threw.
\<close>

datatype ('v, 'e) returned = Value 'v | Promise pid | Thrown 'e

subsection \<open>RequestCoalescer\<close>

record ('k, 'v, 'e, 'r) RequestCoalescer =
  rc_pendingRequests :: "('k js \<times> pid) list"
  rc_promises :: "('k, 'v, 'e) promise list"
  rc_invoked :: "('k js \<times> ('r, 'e) thunk) list"

definition rc_new :: "('k, 'v, 'e, 'r) RequestCoalescer" where
  "rc_new = \<lparr>rc_pendingRequests = [], rc_promises = [], rc_invoked = []\<rparr>"

text \<open>
  \<^verbatim>\<open>execute(key, request)\<close>. When no request is pending for the key, \<^verbatim>\<open>request()\<close> is called
  (logged) before anything is registered: if it throws, nothing is registered; otherwise
  the chained promise is created and stored under the key.
\<close>

definition rc_execute ::
  "'k js \<Rightarrow> ('r, 'e) thunk \<Rightarrow> ('k, 'v, 'e, 'r) RequestCoalescer \<Rightarrow>
     ('v, 'e) returned \<times> ('k, 'v, 'e, 'r) RequestCoalescer" where
  "rc_execute key request s =
     (case map_of (rc_pendingRequests s) key of
        Some pending \<Rightarrow> (Promise pending, s)
      | None \<Rightarrow>
          (case request of
             Thrower r error \<Rightarrow> (Thrown error, s\<lparr>rc_invoked := rc_invoked s @ [(key, request)]\<rparr>)
           | Thunk r \<Rightarrow>
               (let promise = length (rc_promises s) in
                (Promise promise,
                 s\<lparr>rc_invoked := rc_invoked s @ [(key, request)],
                   rc_promises := rc_promises s @ [\<lparr>pkey = key, pstate = Pending\<rparr>],
                   rc_pendingRequests := AList.update key promise (rc_pendingRequests s)\<rparr>))))"

text \<open>
  The \<^verbatim>\<open>then\<close> and \<^verbatim>\<open>catch\<close> callbacks of promise \<open>p\<close>: both delete the entry of the
  captured key, then the promise takes the outcome. A promise settles once: the step does
  nothing for a promise that is not in flight.
\<close>

definition rc_settle ::
  "pid \<Rightarrow> ('v, 'e) settlement \<Rightarrow> ('k, 'v, 'e, 'r) RequestCoalescer \<Rightarrow> ('k, 'v, 'e, 'r) RequestCoalescer" where
  "rc_settle p outcome s =
     (if in_flight (rc_promises s) p then
        (let key = pkey (rc_promises s ! p) in
         s\<lparr>rc_pendingRequests := AList.delete key (rc_pendingRequests s),
           rc_promises := (rc_promises s)[p := \<lparr>pkey = key, pstate = settled outcome\<rparr>]\<rparr>)
      else s)"

definition rc_isPending :: "'k js \<Rightarrow> ('k, 'v, 'e, 'r) RequestCoalescer \<Rightarrow> bool" where
  "rc_isPending key s = (map_of (rc_pendingRequests s) key \<noteq> None)"

definition rc_getPendingCount :: "('k, 'v, 'e, 'r) RequestCoalescer \<Rightarrow> nat" where
  "rc_getPendingCount s = length (rc_pendingRequests s)"

definition rc_clear :: "'k js \<Rightarrow> ('k, 'v, 'e, 'r) RequestCoalescer \<Rightarrow> ('k, 'v, 'e, 'r) RequestCoalescer" where
  "rc_clear key s = s\<lparr>rc_pendingRequests := AList.delete key (rc_pendingRequests s)\<rparr>"

definition rc_clearAll :: "('k, 'v, 'e, 'r) RequestCoalescer \<Rightarrow> ('k, 'v, 'e, 'r) RequestCoalescer" where
  "rc_clearAll s = s\<lparr>rc_pendingRequests := []\<rparr>"

text \<open>The steps of a \<^verbatim>\<open>RequestCoalescer\<close>, runs of steps, and the answers to the calls of a run.\<close>

datatype ('k, 'v, 'e, 'r) rc_event =
    RcExecute "'k js" "('r, 'e) thunk"
  | RcSettle pid "('v, 'e) settlement"
  | RcClear "'k js"
  | RcClearAll

fun rc_step :: "('k, 'v, 'e, 'r) rc_event \<Rightarrow> ('k, 'v, 'e, 'r) RequestCoalescer \<Rightarrow> ('k, 'v, 'e, 'r) RequestCoalescer" where
  "rc_step (RcExecute key request) s = snd (rc_execute key request s)"
| "rc_step (RcSettle p outcome) s = rc_settle p outcome s"
| "rc_step (RcClear key) s = rc_clear key s"
| "rc_step RcClearAll s = rc_clearAll s"

fun rc_run :: "('k, 'v, 'e, 'r) rc_event list \<Rightarrow> ('k, 'v, 'e, 'r) RequestCoalescer \<Rightarrow> ('k, 'v, 'e, 'r) RequestCoalescer" where
  "rc_run [] s = s"
| "rc_run (ev # evs) s = rc_run evs (rc_step ev s)"

fun rc_replies ::
  "('k, 'v, 'e, 'r) rc_event list \<Rightarrow> ('k, 'v, 'e, 'r) RequestCoalescer \<Rightarrow> ('k js \<times> ('v, 'e) returned) list" where
  "rc_replies [] s = []"
| "rc_replies (ev # evs) s =
     (case ev of RcExecute key request \<Rightarrow> [(key, fst (rc_execute key request s))] | _ \<Rightarrow> [])
     @ rc_replies evs (rc_step ev s)"

text \<open>
  A step that leaves the request of key \<open>k\<close> alone: it does not clear the key, and it is
  not the settlement of a promise created for the key. A run is undisturbed when each of
  its steps is, in the state where it is taken.
\<close>

fun rc_leaves :: "'k js \<Rightarrow> ('k, 'v, 'e, 'r) rc_event \<Rightarrow> ('k, 'v, 'e, 'r) RequestCoalescer \<Rightarrow> bool" where
  "rc_leaves k (RcExecute key request) s = True"
| "rc_leaves k (RcSettle p outcome) s = (\<not> (in_flight (rc_promises s) p \<and> pkey (rc_promises s ! p) = k))"
| "rc_leaves k (RcClear key) s = (key \<noteq> k)"
| "rc_leaves k RcClearAll s = False"

fun rc_undisturbed :: "'k js \<Rightarrow> ('k, 'v, 'e, 'r) rc_event list \<Rightarrow> ('k, 'v, 'e, 'r) RequestCoalescer \<Rightarrow> bool" where
  "rc_undisturbed k [] s = True"
| "rc_undisturbed k (ev # evs) s = (rc_leaves k ev s \<and> rc_undisturbed k evs (rc_step ev s))"

subsection \<open>CachedRequestCoalescer\<close>

record CachedCoalescerOptions =
  ttl :: "int option"
  maxSize :: "int option"

record 'v CacheEntry =
  result :: 'v
  timestamp :: int

record ('k, 'v, 'e, 'r) CachedRequestCoalescer =
  options :: CachedCoalescerOptions
  cache :: "('k js \<times> 'v CacheEntry) list"
  pendingRequests :: "('k js \<times> pid) list"
  accessOrder :: "'k js list"
  promises :: "('k, 'v, 'e) promise list"
  invoked :: "('k js \<times> ('r, 'e) thunk) list"

definition new_coalescer :: "CachedCoalescerOptions \<Rightarrow> ('k, 'v, 'e, 'r) CachedRequestCoalescer" where
  "new_coalescer opts =
     \<lparr>options = opts, cache = [], pendingRequests = [], accessOrder = [], promises = [], invoked = []\<rparr>"

text \<open>The truth value of an optional number: \<^verbatim>\<open>undefined\<close> and \<^verbatim>\<open>0\<close> are falsy.\<close>

fun truthy :: "int option \<Rightarrow> bool" where
  "truthy None = False"
| "truthy (Some n) = (n \<noteq> 0)"

definition isCacheValid :: "CachedCoalescerOptions \<Rightarrow> int \<Rightarrow> 'v CacheEntry \<Rightarrow> bool" where
  "isCacheValid opts now entry =
     (case ttl opts of
        None \<Rightarrow> False
      | Some t \<Rightarrow> if t = 0 then False else now - timestamp entry < t)"

text \<open>\<^verbatim>\<open>Array.prototype.indexOf\<close>: the first index of an element \<^verbatim>\<open>===\<close> to the key, or \<open>-1\<close>.\<close>

fun indexOf :: "'a js list \<Rightarrow> 'a js \<Rightarrow> int" where
  "indexOf [] x = - 1"
| "indexOf (y # ys) x =
     (if strict_eq y x then 0 else (let i = indexOf ys x in if i > - 1 then i + 1 else - 1))"

text \<open>\<^verbatim>\<open>splice(index, 1)\<close>: drop the element at the index.\<close>

definition splice1 :: "int \<Rightarrow> 'a list \<Rightarrow> 'a list" where
  "splice1 index xs = take (nat index) xs @ drop (nat index + 1) xs"

definition updateAccessOrder :: "'k js \<Rightarrow> 'k js list \<Rightarrow> 'k js list" where
  "updateAccessOrder key order =
     (let index = indexOf order key in
      (if index > - 1 then splice1 index order else order) @ [key])"

text \<open>
  \<^verbatim>\<open>setCacheEntry\<close>. The element \<^verbatim>\<open>accessOrder[0]\<close> of an empty array is \<^verbatim>\<open>undefined\<close>;
  nothing is evicted when \<^verbatim>\<open>lruKey\<close> is \<^verbatim>\<open>undefined\<close>, be it for the empty array or for the
  key \<^verbatim>\<open>undefined\<close> at the front. \<^verbatim>\<open>shift()\<close> drops the first element.
\<close>

definition setCacheEntry ::
  "'k js \<Rightarrow> 'v \<Rightarrow> int \<Rightarrow> ('k, 'v, 'e, 'r) CachedRequestCoalescer \<Rightarrow> ('k, 'v, 'e, 'r) CachedRequestCoalescer" where
  "setCacheEntry key res now s =
     (let s1 = (if truthy (maxSize (options s)) \<and>
                   (case maxSize (options s) of None \<Rightarrow> False | Some m \<Rightarrow> int (length (cache s)) \<ge> m)
                then (let lruKey = (case accessOrder s of [] \<Rightarrow> Undefined | front # rest \<Rightarrow> front) in
                      if lruKey \<noteq> Undefined
                      then s\<lparr>cache := AList.delete lruKey (cache s), accessOrder := tl (accessOrder s)\<rparr>
                      else s)
                else s);
          s2 = s1\<lparr>cache := AList.update key \<lparr>result = res, timestamp = now\<rparr> (cache s1)\<rparr>
      in s2\<lparr>accessOrder := updateAccessOrder key (accessOrder s2)\<rparr>)"

text \<open>
  The part of \<^verbatim>\<open>execute\<close> after the cache check: attach to the pending request, or call
  \<^verbatim>\<open>request()\<close> and, unless it throws, register the chained promise.
\<close>

definition execute_uncached ::
  "'k js \<Rightarrow> ('r, 'e) thunk \<Rightarrow> ('k, 'v, 'e, 'r) CachedRequestCoalescer \<Rightarrow>
     ('v, 'e) returned \<times> ('k, 'v, 'e, 'r) CachedRequestCoalescer" where
  "execute_uncached key request s =
     (case map_of (pendingRequests s) key of
        Some pending \<Rightarrow> (Promise pending, s)
      | None \<Rightarrow>
          (case request of
             Thrower r error \<Rightarrow> (Thrown error, s\<lparr>invoked := invoked s @ [(key, request)]\<rparr>)
           | Thunk r \<Rightarrow>
               (let promise = length (promises s) in
                (Promise promise,
                 s\<lparr>invoked := invoked s @ [(key, request)],
                   promises := promises s @ [\<lparr>pkey = key, pstate = Pending\<rparr>],
                   pendingRequests := AList.update key promise (pendingRequests s)\<rparr>))))"

definition execute ::
  "'k js \<Rightarrow> ('r, 'e) thunk \<Rightarrow> int \<Rightarrow> ('k, 'v, 'e, 'r) CachedRequestCoalescer \<Rightarrow>
     ('v, 'e) returned \<times> ('k, 'v, 'e, 'r) CachedRequestCoalescer" where
  "execute key request now s =
     (case map_of (cache s) key of
        Some cached \<Rightarrow>
          if isCacheValid (options s) now cached
          then (Value (result cached), s\<lparr>accessOrder := updateAccessOrder key (accessOrder s)\<rparr>)
          else execute_uncached key request s
      | None \<Rightarrow> execute_uncached key request s)"

text \<open>The \<^verbatim>\<open>then\<close> and \<^verbatim>\<open>catch\<close> callbacks of promise \<open>p\<close>, run at time \<open>now\<close>.\<close>

definition settle ::
  "pid \<Rightarrow> ('v, 'e) settlement \<Rightarrow> int \<Rightarrow> ('k, 'v, 'e, 'r) CachedRequestCoalescer \<Rightarrow> ('k, 'v, 'e, 'r) CachedRequestCoalescer" where
  "settle p outcome now s =
     (if in_flight (promises s) p then
        (let key = pkey (promises s ! p);
             s1 = s\<lparr>pendingRequests := AList.delete key (pendingRequests s)\<rparr>;
             s2 = (case outcome of
                     Resolves res \<Rightarrow> if truthy (ttl (options s1)) then setCacheEntry key res now s1 else s1
                   | Rejects error \<Rightarrow> s1)
         in s2\<lparr>promises := (promises s2)[p := \<lparr>pkey = key, pstate = settled outcome\<rparr>]\<rparr>)
      else s)"

definition invalidate :: "'k js \<Rightarrow> ('k, 'v, 'e, 'r) CachedRequestCoalescer \<Rightarrow> ('k, 'v, 'e, 'r) CachedRequestCoalescer" where
  "invalidate key s =
     (let index = indexOf (accessOrder s) key in
      s\<lparr>cache := AList.delete key (cache s),
        pendingRequests := AList.delete key (pendingRequests s),
        accessOrder := (if index > - 1 then splice1 index (accessOrder s) else accessOrder s)\<rparr>)"

definition clear :: "('k, 'v, 'e, 'r) CachedRequestCoalescer \<Rightarrow> ('k, 'v, 'e, 'r) CachedRequestCoalescer" where
  "clear s = s\<lparr>cache := [], pendingRequests := [], accessOrder := []\<rparr>"

definition isPending :: "'k js \<Rightarrow> ('k, 'v, 'e, 'r) CachedRequestCoalescer \<Rightarrow> bool" where
  "isPending key s = (map_of (pendingRequests s) key \<noteq> None)"

definition isCached :: "'k js \<Rightarrow> int \<Rightarrow> ('k, 'v, 'e, 'r) CachedRequestCoalescer \<Rightarrow> bool" where
  "isCached key now s =
     (case map_of (cache s) key of
        Some cached \<Rightarrow> isCacheValid (options s) now cached
      | None \<Rightarrow> False)"

text \<open>The steps of a \<^verbatim>\<open>CachedRequestCoalescer\<close>, runs of steps, and the answers to the calls of a run.\<close>

datatype ('k, 'v, 'e, 'r) event =
    Execute "'k js" "('r, 'e) thunk" int
  | Settle pid "('v, 'e) settlement" int
  | Invalidate "'k js"
  | Clear

fun step :: "('k, 'v, 'e, 'r) event \<Rightarrow> ('k, 'v, 'e, 'r) CachedRequestCoalescer \<Rightarrow> ('k, 'v, 'e, 'r) CachedRequestCoalescer" where
  "step (Execute key request now) s = snd (execute key request now s)"
| "step (Settle p outcome now) s = settle p outcome now s"
| "step (Invalidate key) s = invalidate key s"
| "step Clear s = clear s"

fun run :: "('k, 'v, 'e, 'r) event list \<Rightarrow> ('k, 'v, 'e, 'r) CachedRequestCoalescer \<Rightarrow> ('k, 'v, 'e, 'r) CachedRequestCoalescer" where
  "run [] s = s"
| "run (ev # evs) s = run evs (step ev s)"

fun replies ::
  "('k, 'v, 'e, 'r) event list \<Rightarrow> ('k, 'v, 'e, 'r) CachedRequestCoalescer \<Rightarrow> ('k js \<times> ('v, 'e) returned) list" where
  "replies [] s = []"
| "replies (ev # evs) s =
     (case ev of Execute key request now \<Rightarrow> [(key, fst (execute key request now s))] | _ \<Rightarrow> [])
     @ replies evs (step ev s)"

text \<open>
  A step that leaves the request of key \<open>k\<close> alone: it neither invalidates nor clears the
  key, it is not the settlement of a promise created for the key, and a call for the key
  is not answered from the cache.
\<close>

fun leaves :: "'k js \<Rightarrow> ('k, 'v, 'e, 'r) event \<Rightarrow> ('k, 'v, 'e, 'r) CachedRequestCoalescer \<Rightarrow> bool" where
  "leaves k (Execute key request now) s = (key = k \<longrightarrow> \<not> isCached k now s)"
| "leaves k (Settle p outcome now) s = (\<not> (in_flight (promises s) p \<and> pkey (promises s ! p) = k))"
| "leaves k (Invalidate key) s = (key \<noteq> k)"
| "leaves k Clear s = False"

fun undisturbed :: "'k js \<Rightarrow> ('k, 'v, 'e, 'r) event list \<Rightarrow> ('k, 'v, 'e, 'r) CachedRequestCoalescer \<Rightarrow> bool" where
  "undisturbed k [] s = True"
| "undisturbed k (ev # evs) s = (leaves k ev s \<and> undisturbed k evs (step ev s))"

text \<open>
  A step that keeps the cache entry of key \<open>k\<close> created at time \<open>c\<close> as it is, for a
  time-to-live \<open>T\<close>: a call for the key is made before the entry expires, and the step
  is not the settlement of a request of the key (which would write the entry anew).
\<close>

fun keeps_entry :: "'k js \<Rightarrow> int \<Rightarrow> int \<Rightarrow> ('k, 'v, 'e, 'r) event \<Rightarrow> ('k, 'v, 'e, 'r) CachedRequestCoalescer \<Rightarrow> bool" where
  "keeps_entry k c T (Execute key request now) s = (key = k \<longrightarrow> now - c < T)"
| "keeps_entry k c T (Settle p outcome now) s = (\<not> (in_flight (promises s) p \<and> pkey (promises s ! p) = k))"
| "keeps_entry k c T (Invalidate key) s = True"
| "keeps_entry k c T Clear s = True"

fun entry_kept :: "'k js \<Rightarrow> int \<Rightarrow> int \<Rightarrow> ('k, 'v, 'e, 'r) event list \<Rightarrow> ('k, 'v, 'e, 'r) CachedRequestCoalescer \<Rightarrow> bool" where
  "entry_kept k c T [] s = True"
| "entry_kept k c T (ev # evs) s = (keeps_entry k c T ev s \<and> entry_kept k c T evs (step ev s))"

text \<open>
  The cache and the access order agree: the keys of the cache are distinct (it is a
  \<^verbatim>\<open>Map\<close>), the access order lists exactly these keys, each once, and \<^verbatim>\<open>NaN\<close> is not
  among them.
\<close>

definition cache_inv :: "('k, 'v, 'e, 'r) CachedRequestCoalescer \<Rightarrow> bool" where
  "cache_inv s =
     (distinct (map fst (cache s)) \<and> distinct (accessOrder s)
      \<and> set (accessOrder s) = fst ` set (cache s) \<and> NaN \<notin> set (accessOrder s))"

section \<open>Single steps\<close>

subsection \<open>The access order\<close>

lemma strict_eq_simps [simp]:
  "strict_eq x x = (x \<noteq> NaN)" "x \<noteq> y \<Longrightarrow> \<not> strict_eq x y" "\<not> strict_eq x NaN" "\<not> strict_eq NaN y"
  by (auto simp: strict_eq_def)

lemma indexOf_ge: "- 1 \<le> indexOf xs x"
  by (induction xs) (auto simp: Let_def)

lemma indexOf_absent: "x \<notin> set xs \<Longrightarrow> indexOf xs x = - 1"
  by (induction xs) (auto simp: Let_def strict_eq_def)

lemma indexOf_NaN [simp]: "indexOf xs NaN = - 1"
  by (induction xs) (auto simp: Let_def)

lemma indexOf_present: "x \<in> set xs \<Longrightarrow> x \<noteq> NaN \<Longrightarrow> indexOf xs x > - 1"
proof (induction xs)
  case Nil
  then show ?case by simp
next
  case (Cons y ys)
  show ?case
  proof (cases "y = x")
    case True
    with Cons.prems show ?thesis by simp
  next
    case False
    with Cons.prems have "x \<in> set ys" by simp
    from Cons.IH [OF this Cons.prems(2)] False show ?thesis by (simp add: Let_def)
  qed
qed

lemma splice1_indexOf: "x \<in> set xs \<Longrightarrow> x \<noteq> NaN \<Longrightarrow> splice1 (indexOf xs x) xs = remove1 x xs"
proof (induction xs)
  case Nil
  then show ?case by simp
next
  case (Cons y ys)
  show ?case
  proof (cases "y = x")
    case True
    with Cons.prems show ?thesis by (simp add: splice1_def)
  next
    case False
    with Cons.prems have mem: "x \<in> set ys" by simp
    from indexOf_present [OF mem Cons.prems(2)] have pos: "indexOf ys x > - 1" .
    then have "nat (indexOf ys x + 1) = Suc (nat (indexOf ys x))" by simp
    with Cons.IH [OF mem Cons.prems(2)] False pos show ?thesis
      by (simp add: splice1_def Let_def)
  qed
qed

lemma removeIndex_eq:
  "(if indexOf xs x > - 1 then splice1 (indexOf xs x) xs else xs) =
     (if x = NaN then xs else remove1 x xs)"
proof (cases "x \<in> set xs \<and> x \<noteq> NaN")
  case True
  with indexOf_present [of x xs] splice1_indexOf [of x xs] show ?thesis by simp
next
  case False
  then have "indexOf xs x = - 1" by (auto simp: indexOf_absent)
  with False show ?thesis by (auto simp: remove1_idem)
qed

lemma updateAccessOrder_eq:
  "updateAccessOrder key order = (if key = NaN then order else remove1 key order) @ [key]"
  unfolding updateAccessOrder_def Let_def removeIndex_eq ..

lemma last_updateAccessOrder [simp]: "last (updateAccessOrder key order) = key"
  by (simp add: updateAccessOrder_eq)

subsection \<open>Promises in the heap\<close>

lemma in_flight_append_new [simp]:
  "in_flight (heap @ [\<lparr>pkey = k, pstate = Pending\<rparr>]) (length heap)"
  by (simp add: in_flight_def)

lemma in_flight_append_old:
  "p < length heap \<Longrightarrow> in_flight (heap @ [x]) p = in_flight heap p"
  by (simp add: in_flight_def nth_append)

lemma in_flight_update_other:
  "p \<noteq> q \<Longrightarrow> in_flight (heap[q := x]) p = in_flight heap p"
  by (simp add: in_flight_def)

lemma in_flight_update_settled [simp]:
  "\<not> in_flight (heap[p := \<lparr>pkey = k, pstate = settled outcome\<rparr>]) p"
  by (cases outcome) (auto simp: in_flight_def)

lemma in_flight_less: "in_flight heap p \<Longrightarrow> p < length heap"
  by (simp add: in_flight_def)

subsection \<open>Steps of the RequestCoalescer\<close>

lemma rc_execute_attach:
  "map_of (rc_pendingRequests s) k = Some p \<Longrightarrow> rc_execute k r s = (Promise p, s)"
  by (simp add: rc_execute_def)

lemma rc_execute_start:
  "map_of (rc_pendingRequests s) k = None \<Longrightarrow>
   rc_execute k (Thunk r) s =
     (Promise (length (rc_promises s)),
      s\<lparr>rc_invoked := rc_invoked s @ [(k, Thunk r)],
        rc_promises := rc_promises s @ [\<lparr>pkey = k, pstate = Pending\<rparr>],
        rc_pendingRequests := AList.update k (length (rc_promises s)) (rc_pendingRequests s)\<rparr>)"
  by (simp add: rc_execute_def Let_def)

lemma rc_execute_throw:
  "map_of (rc_pendingRequests s) k = None \<Longrightarrow>
   rc_execute k (Thrower r e) s = (Thrown e, s\<lparr>rc_invoked := rc_invoked s @ [(k, Thrower r e)]\<rparr>)"
  by (simp add: rc_execute_def)

lemma rc_settle_in_flight:
  "in_flight (rc_promises s) p \<Longrightarrow>
   rc_settle p outcome s =
     s\<lparr>rc_pendingRequests := AList.delete (pkey (rc_promises s ! p)) (rc_pendingRequests s),
       rc_promises := (rc_promises s)[p := \<lparr>pkey = pkey (rc_promises s ! p), pstate = settled outcome\<rparr>]\<rparr>"
  by (simp add: rc_settle_def Let_def)

lemma rc_settle_idle: "\<not> in_flight (rc_promises s) p \<Longrightarrow> rc_settle p outcome s = s"
  by (simp add: rc_settle_def)

lemma rc_settle_pstate:
  "in_flight (rc_promises s) p \<Longrightarrow> pstate (rc_promises (rc_settle p outcome s) ! p) = settled outcome"
  by (simp add: rc_settle_in_flight in_flight_def)

lemma rc_settle_invoked [simp]: "rc_invoked (rc_settle p outcome s) = rc_invoked s"
  by (simp add: rc_settle_def Let_def)

text \<open>
  While the promise \<open>p\<close> of key \<open>k\<close> is registered and in flight, a step that leaves the
  key alone keeps it so, calls no thunk for the key, and answers a call for the key with
  \<open>p\<close>.
\<close>

lemma rc_step_leaves:
  assumes reg: "map_of (rc_pendingRequests s) k = Some p"
    and fl: "in_flight (rc_promises s) p"
    and key: "pkey (rc_promises s ! p) = k"
    and lv: "rc_leaves k ev s"
  shows "map_of (rc_pendingRequests (rc_step ev s)) k = Some p
     \<and> in_flight (rc_promises (rc_step ev s)) p
     \<and> pkey (rc_promises (rc_step ev s) ! p) = k
     \<and> filter (\<lambda>x. fst x = k) (rc_invoked (rc_step ev s)) = filter (\<lambda>x. fst x = k) (rc_invoked s)
     \<and> (\<forall>r. ev = RcExecute k r \<longrightarrow> fst (rc_execute k r s) = Promise p)"
proof (cases ev)
  case (RcExecute key request)
  show ?thesis
  proof (cases "key = k")
    case True
    with RcExecute reg fl key show ?thesis by (simp add: rc_execute_attach)
  next
    case False
    note lt = in_flight_less [OF fl]
    show ?thesis
    proof (cases "map_of (rc_pendingRequests s) key")
      case (Some q)
      with RcExecute False reg fl key show ?thesis by (simp add: rc_execute_attach)
    next
      case None
      show ?thesis
      proof (cases request)
        case (Thunk r)
        with RcExecute False None reg fl key lt show ?thesis
          by (simp add: rc_execute_start update_conv' in_flight_append_old nth_append)
      next
        case (Thrower r e)
        with RcExecute False None reg fl key show ?thesis
          by (simp add: rc_execute_throw)
      qed
    qed
  qed
next
  case (RcSettle q outcome)
  show ?thesis
  proof (cases "in_flight (rc_promises s) q")
    case True
    with RcSettle lv have other: "pkey (rc_promises s ! q) \<noteq> k" by simp
    with key have "p \<noteq> q" by auto
    with RcSettle True other reg fl key show ?thesis
      by (simp add: rc_settle_in_flight in_flight_update_other)
  next
    case False
    with RcSettle reg fl key show ?thesis by (simp add: rc_settle_idle)
  qed
next
  case (RcClear key')
  with lv reg fl key show ?thesis by (simp add: rc_clear_def)
next
  case RcClearAll
  with lv show ?thesis by simp
qed

lemma rc_run_leaves:
  "map_of (rc_pendingRequests s) k = Some p \<Longrightarrow> in_flight (rc_promises s) p \<Longrightarrow>
   pkey (rc_promises s ! p) = k \<Longrightarrow> rc_undisturbed k evs s \<Longrightarrow>
   map_of (rc_pendingRequests (rc_run evs s)) k = Some p
   \<and> in_flight (rc_promises (rc_run evs s)) p
   \<and> pkey (rc_promises (rc_run evs s) ! p) = k
   \<and> filter (\<lambda>x. fst x = k) (rc_invoked (rc_run evs s)) = filter (\<lambda>x. fst x = k) (rc_invoked s)
   \<and> (\<forall>a \<in> set (rc_replies evs s). fst a = k \<longrightarrow> snd a = Promise p)"
proof (induction evs arbitrary: s)
  case Nil
  then show ?case by simp
next
  case (Cons ev evs)
  from Cons.prems(4) have lv: "rc_leaves k ev s" and rest: "rc_undisturbed k evs (rc_step ev s)"
    by simp_all
  note one = rc_step_leaves [OF Cons.prems(1-3) lv]
  from one have a: "map_of (rc_pendingRequests (rc_step ev s)) k = Some p"
    and b: "in_flight (rc_promises (rc_step ev s)) p"
    and c: "pkey (rc_promises (rc_step ev s) ! p) = k"
    and d: "filter (\<lambda>x. fst x = k) (rc_invoked (rc_step ev s)) = filter (\<lambda>x. fst x = k) (rc_invoked s)"
    and e: "\<forall>r. ev = RcExecute k r \<longrightarrow> fst (rc_execute k r s) = Promise p"
    by simp_all
  note ih = Cons.IH [OF a b c rest]
  have here: "\<forall>a \<in> set (case ev of RcExecute key request \<Rightarrow> [(key, fst (rc_execute key request s))] | _ \<Rightarrow> []).
      fst a = k \<longrightarrow> snd a = Promise p"
    using e by (cases ev) auto
  from ih d here show ?case by auto
qed

subsection \<open>Steps of the CachedRequestCoalescer\<close>


lemma execute_miss:
  "\<not> isCached k now s \<Longrightarrow> execute k r now s = execute_uncached k r s"
  by (auto simp: execute_def isCached_def split: option.splits)

lemma execute_hit:
  "map_of (cache s) k = Some entry \<Longrightarrow> isCacheValid (options s) now entry \<Longrightarrow>
   execute k r now s = (Value (result entry), s\<lparr>accessOrder := updateAccessOrder k (accessOrder s)\<rparr>)"
  by (simp add: execute_def)

lemma execute_attach:
  "\<not> isCached k now s \<Longrightarrow> map_of (pendingRequests s) k = Some p \<Longrightarrow>
   execute k r now s = (Promise p, s)"
  by (simp add: execute_miss execute_uncached_def)

lemma execute_start:
  "\<not> isCached k now s \<Longrightarrow> map_of (pendingRequests s) k = None \<Longrightarrow>
   execute k (Thunk r) now s =
     (Promise (length (promises s)),
      s\<lparr>invoked := invoked s @ [(k, Thunk r)],
        promises := promises s @ [\<lparr>pkey = k, pstate = Pending\<rparr>],
        pendingRequests := AList.update k (length (promises s)) (pendingRequests s)\<rparr>)"
  by (simp add: execute_miss execute_uncached_def Let_def)

lemma execute_throw:
  "\<not> isCached k now s \<Longrightarrow> map_of (pendingRequests s) k = None \<Longrightarrow>
   execute k (Thrower r e) now s = (Thrown e, s\<lparr>invoked := invoked s @ [(k, Thrower r e)]\<rparr>)"
  by (simp add: execute_miss execute_uncached_def)

lemma execute_cache [simp]: "cache (snd (execute k r now s)) = cache s"
  by (simp add: execute_def execute_uncached_def Let_def split: option.splits thunk.splits)

lemma execute_options [simp]: "options (snd (execute k r now s)) = options s"
  by (simp add: execute_def execute_uncached_def Let_def split: option.splits thunk.splits)

lemma setCacheEntry_frame [simp]:
  "options (setCacheEntry key res now s) = options s"
  "pendingRequests (setCacheEntry key res now s) = pendingRequests s"
  "promises (setCacheEntry key res now s) = promises s"
  "invoked (setCacheEntry key res now s) = invoked s"
  by (simp_all add: setCacheEntry_def Let_def)

lemma setCacheEntry_lookup [simp]:
  "map_of (cache (setCacheEntry key res now s)) key = Some \<lparr>result = res, timestamp = now\<rparr>"
  by (simp add: setCacheEntry_def Let_def update_conv')

lemma settle_idle: "\<not> in_flight (promises s) p \<Longrightarrow> settle p outcome now s = s"
  by (simp add: settle_def)

lemma settle_frame [simp]:
  "options (settle p outcome now s) = options s"
  "invoked (settle p outcome now s) = invoked s"
  "length (promises (settle p outcome now s)) = length (promises s)"
  by (simp_all add: settle_def Let_def split: settlement.splits)

lemma settle_pending:
  "in_flight (promises s) p \<Longrightarrow>
   pendingRequests (settle p outcome now s) = AList.delete (pkey (promises s ! p)) (pendingRequests s)"
  by (simp add: settle_def Let_def split: settlement.splits)

lemma settle_promises:
  "in_flight (promises s) p \<Longrightarrow>
   promises (settle p outcome now s) =
     (promises s)[p := \<lparr>pkey = pkey (promises s ! p), pstate = settled outcome\<rparr>]"
  by (simp add: settle_def Let_def split: settlement.splits)

lemma settle_pstate:
  "in_flight (promises s) p \<Longrightarrow> pstate (promises (settle p outcome now s) ! p) = settled outcome"
  by (simp add: settle_promises in_flight_def)


lemma settle_rejects_cache [simp]:
  "cache (settle p (Rejects error) now s) = cache s"
  "accessOrder (settle p (Rejects error) now s) = accessOrder s"
  by (simp_all add: settle_def Let_def)

lemma settle_no_ttl:
  "in_flight (promises s) p \<Longrightarrow> \<not> truthy (ttl (options s)) \<Longrightarrow>
   settle p outcome now s =
     s\<lparr>pendingRequests := AList.delete (pkey (promises s ! p)) (pendingRequests s),
       promises := (promises s)[p := \<lparr>pkey = pkey (promises s ! p), pstate = settled outcome\<rparr>]\<rparr>"
  by (simp add: settle_def Let_def split: settlement.splits)

lemma settle_no_ttl_cache:
  "\<not> truthy (ttl (options s)) \<Longrightarrow> cache (settle p outcome now s) = cache s"
  "\<not> truthy (ttl (options s)) \<Longrightarrow> accessOrder (settle p outcome now s) = accessOrder s"
  by (simp_all add: settle_def Let_def split: settlement.splits)

lemma settle_resolves_lookup:
  "in_flight (promises s) p \<Longrightarrow> truthy (ttl (options s)) \<Longrightarrow>
   map_of (cache (settle p (Resolves res) now s)) (pkey (promises s ! p)) =
     Some \<lparr>result = res, timestamp = now\<rparr>"
  by (simp add: settle_def Let_def)

lemma step_options [simp]: "options (step ev s) = options s"
  by (cases ev) (simp_all add: invalidate_def clear_def Let_def)

lemma run_options [simp]: "options (run evs s) = options s"
  by (induction evs arbitrary: s) simp_all

text \<open>The counterpart of \<open>rc_step_leaves\<close> for the caching coalescer.\<close>

lemma step_leaves:
  assumes reg: "map_of (pendingRequests s) k = Some p"
    and fl: "in_flight (promises s) p"
    and key: "pkey (promises s ! p) = k"
    and lv: "leaves k ev s"
  shows "map_of (pendingRequests (step ev s)) k = Some p
     \<and> in_flight (promises (step ev s)) p
     \<and> pkey (promises (step ev s) ! p) = k
     \<and> filter (\<lambda>x. fst x = k) (invoked (step ev s)) = filter (\<lambda>x. fst x = k) (invoked s)
     \<and> (\<forall>r now. ev = Execute k r now \<longrightarrow> fst (execute k r now s) = Promise p)"
proof (cases ev)
  case (Execute key request now)
  note lt = in_flight_less [OF fl]
  show ?thesis
  proof (cases "key = k")
    case True
    with Execute lv have "\<not> isCached k now s" by simp
    with Execute True reg fl key show ?thesis by (simp add: execute_attach)
  next
    case False
    show ?thesis
    proof (cases "isCached key now s")
      case True
      then obtain entry where "map_of (cache s) key = Some entry" "isCacheValid (options s) now entry"
        by (auto simp: isCached_def split: option.splits)
      with Execute False reg fl key show ?thesis by (simp add: execute_hit)
    next
      case miss: False
      show ?thesis
      proof (cases "map_of (pendingRequests s) key")
        case (Some q)
        with Execute False miss reg fl key show ?thesis by (simp add: execute_attach)
      next
        case None
        show ?thesis
        proof (cases request)
          case (Thunk r)
          with Execute False miss None reg fl key lt show ?thesis
            by (simp add: execute_start update_conv' in_flight_append_old nth_append)
        next
          case (Thrower r e)
          with Execute False miss None reg fl key show ?thesis
            by (simp add: execute_throw)
        qed
      qed
    qed
  qed
next
  case (Settle q outcome now)
  show ?thesis
  proof (cases "in_flight (promises s) q")
    case True
    with Settle lv have other: "pkey (promises s ! q) \<noteq> k" by simp
    with key have "p \<noteq> q" by auto
    with Settle True other reg fl key show ?thesis
      by (simp add: settle_pending settle_promises in_flight_update_other)
  next
    case False
    with Settle reg fl key show ?thesis by (simp add: settle_idle)
  qed
next
  case (Invalidate key')
  with lv reg fl key show ?thesis by (simp add: invalidate_def Let_def)
next
  case Clear
  with lv show ?thesis by simp
qed

lemma run_leaves:
  "map_of (pendingRequests s) k = Some p \<Longrightarrow> in_flight (promises s) p \<Longrightarrow>
   pkey (promises s ! p) = k \<Longrightarrow> undisturbed k evs s \<Longrightarrow>
   map_of (pendingRequests (run evs s)) k = Some p
   \<and> in_flight (promises (run evs s)) p
   \<and> pkey (promises (run evs s) ! p) = k
   \<and> filter (\<lambda>x. fst x = k) (invoked (run evs s)) = filter (\<lambda>x. fst x = k) (invoked s)
   \<and> (\<forall>a \<in> set (replies evs s). fst a = k \<longrightarrow> snd a = Promise p)"
proof (induction evs arbitrary: s)
  case Nil
  then show ?case by simp
next
  case (Cons ev evs)
  from Cons.prems(4) have lv: "leaves k ev s" and rest: "undisturbed k evs (step ev s)"
    by simp_all
  note one = step_leaves [OF Cons.prems(1-3) lv]
  from one have a: "map_of (pendingRequests (step ev s)) k = Some p"
    and b: "in_flight (promises (step ev s)) p"
    and c: "pkey (promises (step ev s) ! p) = k"
    and d: "filter (\<lambda>x. fst x = k) (invoked (step ev s)) = filter (\<lambda>x. fst x = k) (invoked s)"
    and e: "\<forall>r now. ev = Execute k r now \<longrightarrow> fst (execute k r now s) = Promise p"
    by simp_all
  note ih = Cons.IH [OF a b c rest]
  have here: "\<forall>a \<in> set (case ev of Execute key request now \<Rightarrow> [(key, fst (execute key request now s))] | _ \<Rightarrow> []).
      fst a = k \<longrightarrow> snd a = Promise p"
    using e by (cases ev) auto
  from ih d here show ?case by auto
qed

text \<open>The definitions a concrete run is evaluated with.\<close>

lemmas rc_eval =
  rc_new_def rc_execute_def rc_settle_def rc_clear_def rc_clearAll_def rc_isPending_def
  in_flight_def Let_def

lemmas coalescer_eval =
  new_coalescer_def execute_def execute_uncached_def settle_def in_flight_def setCacheEntry_def
  updateAccessOrder_def splice1_def invalidate_def clear_def isCached_def isCacheValid_def
  isPending_def strict_eq_def Let_def

section \<open>Coalescing of concurrent calls\<close>

text \<open>
  C1, as amended. When a request is pending for a key, \<^verbatim>\<open>execute\<close> hands the caller that
  pending promise and leaves the state as it is, so the caller's thunk is not called (for
  the caching coalescer: when no valid cache entry answers the call first). Hence, when a
  call for key \<open>k\<close> starts a request whose thunk returns a promise, then over every run
  of further steps that leave the key alone (calls for any key, settlements of requests
  of other keys, clearing of other keys) every call for \<open>k\<close> receives the promise of the
  first call, the thunk of the first call is the only one called for \<open>k\<close>, and that one
  promise takes the outcome of the request.
\<close>

theorem coalescing_while_registered:
  "(map_of (rc_pendingRequests rc) k = Some p \<longrightarrow> rc_execute k request rc = (Promise p, rc))
   \<and> (let first = length (rc_promises rc'); s1 = snd (rc_execute k (Thunk op) rc') in
        map_of (rc_pendingRequests rc') k = None \<and> rc_undisturbed k evs s1 \<longrightarrow>
          fst (rc_execute k (Thunk op) rc') = Promise first
          \<and> (\<forall>a \<in> set (rc_replies evs s1). fst a = k \<longrightarrow> snd a = Promise first)
          \<and> filter (\<lambda>x. fst x = k) (rc_invoked (rc_run evs s1))
              = filter (\<lambda>x. fst x = k) (rc_invoked rc') @ [(k, Thunk op)]
          \<and> pstate (rc_promises (rc_settle first outcome (rc_run evs s1)) ! first) = settled outcome)
   \<and> (map_of (pendingRequests s) k = Some q \<and> \<not> isCached k now s \<longrightarrow>
        execute k request now s = (Promise q, s))
   \<and> (let first = length (promises s'); s1 = snd (execute k (Thunk op) now s') in
        map_of (pendingRequests s') k = None \<and> \<not> isCached k now s' \<and> undisturbed k cevs s1 \<longrightarrow>
          fst (execute k (Thunk op) now s') = Promise first
          \<and> (\<forall>a \<in> set (replies cevs s1). fst a = k \<longrightarrow> snd a = Promise first)
          \<and> filter (\<lambda>x. fst x = k) (invoked (run cevs s1))
              = filter (\<lambda>x. fst x = k) (invoked s') @ [(k, Thunk op)]
          \<and> pstate (promises (settle first outcome t (run cevs s1)) ! first) = settled outcome)"
proof (intro conjI)
  show "map_of (rc_pendingRequests rc) k = Some p \<longrightarrow> rc_execute k request rc = (Promise p, rc)"
    by (simp add: rc_execute_attach)
next
  show "map_of (pendingRequests s) k = Some q \<and> \<not> isCached k now s \<longrightarrow>
        execute k request now s = (Promise q, s)"
    by (simp add: execute_attach)
next
  let ?first = "length (rc_promises rc')"
  let ?s1 = "snd (rc_execute k (Thunk op) rc')"
  have "fst (rc_execute k (Thunk op) rc') = Promise ?first
          \<and> (\<forall>a \<in> set (rc_replies evs ?s1). fst a = k \<longrightarrow> snd a = Promise ?first)
          \<and> filter (\<lambda>x. fst x = k) (rc_invoked (rc_run evs ?s1))
              = filter (\<lambda>x. fst x = k) (rc_invoked rc') @ [(k, Thunk op)]
          \<and> pstate (rc_promises (rc_settle ?first outcome (rc_run evs ?s1)) ! ?first) = settled outcome"
    if none: "map_of (rc_pendingRequests rc') k = None" and und: "rc_undisturbed k evs ?s1"
  proof -
    note start = rc_execute_start [OF none, of op]
    have reg: "map_of (rc_pendingRequests ?s1) k = Some ?first"
      and fl: "in_flight (rc_promises ?s1) ?first"
      and key: "pkey (rc_promises ?s1 ! ?first) = k"
      and log: "rc_invoked ?s1 = rc_invoked rc' @ [(k, Thunk op)]"
      by (simp_all add: start update_conv')
    note win = rc_run_leaves [OF reg fl key und]
    from win have fl': "in_flight (rc_promises (rc_run evs ?s1)) ?first" by simp
    from win log rc_settle_pstate [OF fl', of outcome] show ?thesis
      by (simp add: start)
  qed
  then show "let first = length (rc_promises rc'); s1 = snd (rc_execute k (Thunk op) rc') in
        map_of (rc_pendingRequests rc') k = None \<and> rc_undisturbed k evs s1 \<longrightarrow>
          fst (rc_execute k (Thunk op) rc') = Promise first
          \<and> (\<forall>a \<in> set (rc_replies evs s1). fst a = k \<longrightarrow> snd a = Promise first)
          \<and> filter (\<lambda>x. fst x = k) (rc_invoked (rc_run evs s1))
              = filter (\<lambda>x. fst x = k) (rc_invoked rc') @ [(k, Thunk op)]
          \<and> pstate (rc_promises (rc_settle first outcome (rc_run evs s1)) ! first) = settled outcome"
    unfolding Let_def by blast
next
  let ?first = "length (promises s')"
  let ?s1 = "snd (execute k (Thunk op) now s')"
  have "fst (execute k (Thunk op) now s') = Promise ?first
          \<and> (\<forall>a \<in> set (replies cevs ?s1). fst a = k \<longrightarrow> snd a = Promise ?first)
          \<and> filter (\<lambda>x. fst x = k) (invoked (run cevs ?s1))
              = filter (\<lambda>x. fst x = k) (invoked s') @ [(k, Thunk op)]
          \<and> pstate (promises (settle ?first outcome t (run cevs ?s1)) ! ?first) = settled outcome"
    if none: "map_of (pendingRequests s') k = None" and miss: "\<not> isCached k now s'"
      and und: "undisturbed k cevs ?s1"
  proof -
    note start = execute_start [OF miss none, of op]
    have reg: "map_of (pendingRequests ?s1) k = Some ?first"
      and fl: "in_flight (promises ?s1) ?first"
      and key: "pkey (promises ?s1 ! ?first) = k"
      and log: "invoked ?s1 = invoked s' @ [(k, Thunk op)]"
      by (simp_all add: start update_conv')
    note win = run_leaves [OF reg fl key und]
    from win have fl': "in_flight (promises (run cevs ?s1)) ?first" by simp
    from win log settle_pstate [OF fl', of outcome t] show ?thesis
      by (simp add: start)
  qed
  then show "let first = length (promises s'); s1 = snd (execute k (Thunk op) now s') in
        map_of (pendingRequests s') k = None \<and> \<not> isCached k now s' \<and> undisturbed k cevs s1 \<longrightarrow>
          fst (execute k (Thunk op) now s') = Promise first
          \<and> (\<forall>a \<in> set (replies cevs s1). fst a = k \<longrightarrow> snd a = Promise first)
          \<and> filter (\<lambda>x. fst x = k) (invoked (run cevs s1))
              = filter (\<lambda>x. fst x = k) (invoked s') @ [(k, Thunk op)]
          \<and> pstate (promises (settle first outcome t (run cevs s1)) ! first) = settled outcome"
    unfolding Let_def by blast
qed

theorem coalescing_while_registered_witness:
  "map_of (rc_pendingRequests (snd (rc_execute (Val ''a'') (Thunk ''op1'')
       (rc_new :: (string, string, string, string) RequestCoalescer)))) (Val ''a'') = Some 0
   \<and> fst (rc_execute (Val ''a'') (Thunk ''op2'') (snd (rc_execute (Val ''a'') (Thunk ''op1'')
       (rc_new :: (string, string, string, string) RequestCoalescer)))) = Promise 0
   \<and> map_of (rc_pendingRequests (rc_new :: (string, string, string, string) RequestCoalescer)) (Val ''a'') = None
   \<and> rc_undisturbed (Val ''a'')
        [RcExecute (Val ''b'') (Thunk ''op2''), RcExecute (Val ''a'') (Thunk ''op3''),
         RcSettle 1 (Resolves ''vb''), RcExecute (Val ''a'') (Thrower ''op4'' ''boom'')]
        (snd (rc_execute (Val ''a'') (Thunk ''op1'') (rc_new :: (string, string, string, string) RequestCoalescer)))
   \<and> rc_replies
        [RcExecute (Val ''b'') (Thunk ''op2''), RcExecute (Val ''a'') (Thunk ''op3''),
         RcSettle 1 (Resolves ''vb''), RcExecute (Val ''a'') (Thrower ''op4'' ''boom'')]
        (snd (rc_execute (Val ''a'') (Thunk ''op1'') (rc_new :: (string, string, string, string) RequestCoalescer)))
       = [(Val ''b'', Promise 1), (Val ''a'', Promise 0), (Val ''a'', Promise 0)]
   \<and> filter (\<lambda>x. fst x = Val ''a'') (rc_invoked (rc_run
        [RcExecute (Val ''b'') (Thunk ''op2''), RcExecute (Val ''a'') (Thunk ''op3''),
         RcSettle 1 (Resolves ''vb''), RcExecute (Val ''a'') (Thrower ''op4'' ''boom'')]
        (snd (rc_execute (Val ''a'') (Thunk ''op1'') (rc_new :: (string, string, string, string) RequestCoalescer)))))
       = [(Val ''a'', Thunk ''op1'')]
   \<and> map_of (pendingRequests (snd (execute (Val ''a'') (Thunk ''op1'') 5
        (new_coalescer \<lparr>ttl = Some 1000, maxSize = Some 2\<rparr> :: (string, string, string, string) CachedRequestCoalescer))))
        (Val ''a'') = Some 0
   \<and> \<not> isCached (Val ''a'') 5 (snd (execute (Val ''a'') (Thunk ''op1'') 5
        (new_coalescer \<lparr>ttl = Some 1000, maxSize = Some 2\<rparr> :: (string, string, string, string) CachedRequestCoalescer)))
   \<and> fst (execute (Val ''a'') (Thunk ''op2'') 5 (snd (execute (Val ''a'') (Thunk ''op1'') 5
        (new_coalescer \<lparr>ttl = Some 1000, maxSize = Some 2\<rparr> :: (string, string, string, string) CachedRequestCoalescer))))
       = Promise 0
   \<and> map_of (pendingRequests
        (new_coalescer \<lparr>ttl = Some 1000, maxSize = Some 2\<rparr> :: (string, string, string, string) CachedRequestCoalescer))
        (Val ''a'') = None
   \<and> \<not> isCached (Val ''a'') 5
        (new_coalescer \<lparr>ttl = Some 1000, maxSize = Some 2\<rparr> :: (string, string, string, string) CachedRequestCoalescer)
   \<and> undisturbed (Val ''a'')
        [Execute (Val ''b'') (Thunk ''op2'') 6, Execute (Val ''a'') (Thunk ''op3'') 7,
         Settle 1 (Resolves ''vb'') 8, Execute (Val ''a'') (Thrower ''op4'' ''boom'') 9,
         Execute (Val ''b'') (Thunk ''op5'') 10]
        (snd (execute (Val ''a'') (Thunk ''op1'') 5
          (new_coalescer \<lparr>ttl = Some 1000, maxSize = Some 2\<rparr> :: (string, string, string, string) CachedRequestCoalescer)))
   \<and> replies
        [Execute (Val ''b'') (Thunk ''op2'') 6, Execute (Val ''a'') (Thunk ''op3'') 7,
         Settle 1 (Resolves ''vb'') 8, Execute (Val ''a'') (Thrower ''op4'' ''boom'') 9,
         Execute (Val ''b'') (Thunk ''op5'') 10]
        (snd (execute (Val ''a'') (Thunk ''op1'') 5
          (new_coalescer \<lparr>ttl = Some 1000, maxSize = Some 2\<rparr> :: (string, string, string, string) CachedRequestCoalescer)))
       = [(Val ''b'', Promise 1), (Val ''a'', Promise 0), (Val ''a'', Promise 0), (Val ''b'', Value ''vb'')]
   \<and> filter (\<lambda>x. fst x = Val ''a'') (invoked (run
        [Execute (Val ''b'') (Thunk ''op2'') 6, Execute (Val ''a'') (Thunk ''op3'') 7,
         Settle 1 (Resolves ''vb'') 8, Execute (Val ''a'') (Thrower ''op4'' ''boom'') 9,
         Execute (Val ''b'') (Thunk ''op5'') 10]
        (snd (execute (Val ''a'') (Thunk ''op1'') 5
          (new_coalescer \<lparr>ttl = Some 1000, maxSize = Some 2\<rparr> :: (string, string, string, string) CachedRequestCoalescer)))))
       = [(Val ''a'', Thunk ''op1'')]"
proof -
  let ?rc0 = "rc_new :: (string, string, string, string) RequestCoalescer"
  let ?rc1 = "snd (rc_execute (Val ''a'') (Thunk ''op1'') ?rc0)"
  let ?evs = "[RcExecute (Val ''b'') (Thunk ''op2''), RcExecute (Val ''a'') (Thunk ''op3''),
         RcSettle 1 (Resolves ''vb''), RcExecute (Val ''a'') (Thrower ''op4'' ''boom'')]
         :: (string, string, string, string) rc_event list"
  let ?s0 = "new_coalescer \<lparr>ttl = Some 1000, maxSize = Some 2\<rparr> :: (string, string, string, string) CachedRequestCoalescer"
  let ?s1 = "snd (execute (Val ''a'') (Thunk ''op1'') 5 ?s0)"
  let ?cevs = "[Execute (Val ''b'') (Thunk ''op2'') 6, Execute (Val ''a'') (Thunk ''op3'') 7,
         Settle 1 (Resolves ''vb'') 8, Execute (Val ''a'') (Thrower ''op4'' ''boom'') 9,
         Execute (Val ''b'') (Thunk ''op5'') 10] :: (string, string, string, string) event list"
  have h1: "map_of (rc_pendingRequests ?rc1) (Val ''a'') = Some 0"
    by (simp add: rc_eval)
  have h2: "map_of (rc_pendingRequests ?rc0) (Val ''a'') = None"
    by (simp add: rc_eval)
  have h3: "rc_undisturbed (Val ''a'') ?evs ?rc1"
    by (simp add: rc_eval)
  have r1: "rc_replies ?evs ?rc1 = [(Val ''b'', Promise 1), (Val ''a'', Promise 0), (Val ''a'', Promise 0)]"
    by (simp add: rc_eval)
  have h4: "map_of (pendingRequests ?s1) (Val ''a'') = Some 0"
    by (simp add: coalescer_eval)
  have h5: "\<not> isCached (Val ''a'') 5 ?s1"
    by (simp add: coalescer_eval)
  have h6: "map_of (pendingRequests ?s0) (Val ''a'') = None"
    by (simp add: coalescer_eval)
  have h7: "\<not> isCached (Val ''a'') 5 ?s0"
    by (simp add: coalescer_eval)
  have h8: "undisturbed (Val ''a'') ?cevs ?s1"
    by (simp add: coalescer_eval)
  have r2: "replies ?cevs ?s1 =
      [(Val ''b'', Promise 1), (Val ''a'', Promise 0), (Val ''a'', Promise 0), (Val ''b'', Value ''vb'')]"
    by (simp add: coalescer_eval)
  note inst = coalescing_while_registered
    [where rc = "?rc1" and k = "Val ''a''" and p = 0 and request = "Thunk ''op2''"
       and rc' = "?rc0" and op = "''op1''" and evs = "?evs" and outcome = "Resolves ''va''"
       and s = "?s1" and q = 0 and now = 5 and s' = "?s0" and cevs = "?cevs" and t = 11,
     unfolded Let_def]
  from inst h1 have c1: "rc_execute (Val ''a'') (Thunk ''op2'') ?rc1 = (Promise 0, ?rc1)"
    by blast
  from inst h2 h3 have c2: "filter (\<lambda>x. fst x = Val ''a'') (rc_invoked (rc_run ?evs ?rc1))
       = filter (\<lambda>x. fst x = Val ''a'') (rc_invoked ?rc0) @ [(Val ''a'', Thunk ''op1'')]"
    by blast
  from inst h4 h5 have c3: "execute (Val ''a'') (Thunk ''op2'') 5 ?s1 = (Promise 0, ?s1)"
    by blast
  from inst h6 h7 h8 have c4: "filter (\<lambda>x. fst x = Val ''a'') (invoked (run ?cevs ?s1))
       = filter (\<lambda>x. fst x = Val ''a'') (invoked ?s0) @ [(Val ''a'', Thunk ''op1'')]"
    by blast
  from c1 have c1': "fst (rc_execute (Val ''a'') (Thunk ''op2'') ?rc1) = Promise 0" by simp
  from c3 have c3': "fst (execute (Val ''a'') (Thunk ''op2'') 5 ?s1) = Promise 0" by simp
  have c2': "filter (\<lambda>x. fst x = Val ''a'') (rc_invoked (rc_run ?evs ?rc1)) = [(Val ''a'', Thunk ''op1'')]"
    unfolding c2 by (simp add: rc_new_def)
  have c4': "filter (\<lambda>x. fst x = Val ''a'') (invoked (run ?cevs ?s1)) = [(Val ''a'', Thunk ''op1'')]"
    unfolding c4 by (simp add: new_coalescer_def)
  show ?thesis
    by (intro conjI) (fact h1 c1' h2 h3 r1 c2' h4 h5 c3' h6 h7 h8 r2 c4')+
qed

text \<open>
  C1 as stated fails when the key is cleared between two calls: the second call then
  starts a request of its own although the first one has not settled.
\<close>

theorem coalescing_broken_by_clear:
  "rc_replies [RcExecute (Val ''k'') (Thunk ''op1''), RcClear (Val ''k''), RcExecute (Val ''k'') (Thunk ''op2'')]
      (rc_new :: (string, string, string, string) RequestCoalescer)
     = [(Val ''k'', Promise 0), (Val ''k'', Promise 1)]
   \<and> rc_invoked (rc_run [RcExecute (Val ''k'') (Thunk ''op1''), RcClear (Val ''k''), RcExecute (Val ''k'') (Thunk ''op2'')]
      (rc_new :: (string, string, string, string) RequestCoalescer))
     = [(Val ''k'', Thunk ''op1''), (Val ''k'', Thunk ''op2'')]
   \<and> in_flight (rc_promises (rc_run [RcExecute (Val ''k'') (Thunk ''op1''), RcClear (Val ''k''), RcExecute (Val ''k'') (Thunk ''op2'')]
      (rc_new :: (string, string, string, string) RequestCoalescer))) 0"
  by (simp add: rc_eval)

section \<open>Settlement and calls in sequence\<close>


lemma execute_invokes:
  "map_of (pendingRequests s) k = None \<Longrightarrow> \<not> isCached k now s \<Longrightarrow>
   invoked (snd (execute k r now s)) = invoked s @ [(k, r)]"
  by (cases r) (simp_all add: execute_start execute_throw)





lemma execute_other_key:
  assumes "key \<noteq> k"
  shows "map_of (pendingRequests (snd (execute key request now s))) k = map_of (pendingRequests s) k"
    and "filter (\<lambda>x. fst x = k) (invoked (snd (execute key request now s))) = filter (\<lambda>x. fst x = k) (invoked s)"
  using assms
  by (simp_all add: execute_def execute_uncached_def Let_def update_conv' split: option.splits thunk.splits)

lemma step_other:
  assumes other: "\<forall>r now. ev \<noteq> Execute k r now"
    and inv: "map_of (pendingRequests s) k = None \<or>
      (map_of (pendingRequests s) k = Some p \<and> in_flight (promises s) p \<and> pkey (promises s ! p) = k)"
  shows "(map_of (pendingRequests (step ev s)) k = None \<or>
      (map_of (pendingRequests (step ev s)) k = Some p \<and> in_flight (promises (step ev s)) p
        \<and> pkey (promises (step ev s) ! p) = k))
     \<and> (map_of (pendingRequests s) k = None \<longrightarrow> map_of (pendingRequests (step ev s)) k = None)
     \<and> filter (\<lambda>x. fst x = k) (invoked (step ev s)) = filter (\<lambda>x. fst x = k) (invoked s)"
proof (cases "map_of (pendingRequests s) k = None")
  case True
  have "map_of (pendingRequests (step ev s)) k = None
     \<and> filter (\<lambda>x. fst x = k) (invoked (step ev s)) = filter (\<lambda>x. fst x = k) (invoked s)"
  proof (cases ev)
    case (Execute key request now)
    with other have "key \<noteq> k" by auto
    with Execute True show ?thesis by (simp add: execute_other_key)
  next
    case (Settle q outcome now)
    with True show ?thesis
      by (cases "in_flight (promises s) q") (simp_all add: settle_pending settle_idle delete_conv')
  next
    case (Invalidate key)
    with True show ?thesis by (simp add: invalidate_def Let_def delete_conv')
  next
    case Clear
    then show ?thesis by (simp add: clear_def)
  qed
  then show ?thesis by simp
next
  case False
  with inv have reg: "map_of (pendingRequests s) k = Some p" and fl: "in_flight (promises s) p"
    and key: "pkey (promises s ! p) = k" by auto
  show ?thesis
  proof (cases "leaves k ev s")
    case True
    from step_leaves [OF reg fl key True] reg show ?thesis by simp
  next
    case False
    have "map_of (pendingRequests (step ev s)) k = None
      \<and> filter (\<lambda>x. fst x = k) (invoked (step ev s)) = filter (\<lambda>x. fst x = k) (invoked s)"
    proof (cases ev)
      case (Execute key request now)
      with False other show ?thesis by auto
    next
      case (Settle q outcome now)
      with False have "in_flight (promises s) q" "pkey (promises s ! q) = k" by simp_all
      with Settle show ?thesis by (simp add: settle_pending delete_conv')
    next
      case (Invalidate key)
      with False show ?thesis by (simp add: invalidate_def Let_def delete_conv')
    next
      case Clear
      then show ?thesis by (simp add: clear_def)
    qed
    with reg show ?thesis by simp
  qed
qed



lemma run_append: "run (xs @ ys) s = run ys (run xs s)"
  by (induction xs arbitrary: s) simp_all

lemma rc_run_append: "rc_run (xs @ ys) s = rc_run ys (rc_run xs s)"
  by (induction xs arbitrary: s) simp_all





section \<open>Failures\<close>

text \<open>A cache write for another key leaves the entry of \<open>k\<close> as it is, or evicts it.\<close>

lemma setCacheEntry_other:
  "key \<noteq> k \<Longrightarrow>
   map_of (cache (setCacheEntry key res now s)) k = None \<or>
   map_of (cache (setCacheEntry key res now s)) k = map_of (cache s) k"
  by (simp add: setCacheEntry_def Let_def update_conv' delete_conv')

lemma step_leaves_cache:
  assumes "leaves k ev s"
  shows "map_of (cache (step ev s)) k = None \<or> map_of (cache (step ev s)) k = map_of (cache s) k"
proof (cases ev)
  case (Execute key request now)
  then show ?thesis by simp
next
  case (Settle q outcome now)
  show ?thesis
  proof (cases "in_flight (promises s) q")
    case True
    with Settle assms have "pkey (promises s ! q) \<noteq> k" by simp
    then have "map_of (cache (setCacheEntry (pkey (promises s ! q)) res now
          (s\<lparr>pendingRequests := AList.delete (pkey (promises s ! q)) (pendingRequests s)\<rparr>))) k = None
        \<or> map_of (cache (setCacheEntry (pkey (promises s ! q)) res now
          (s\<lparr>pendingRequests := AList.delete (pkey (promises s ! q)) (pendingRequests s)\<rparr>))) k
            = map_of (cache s) k" for res
      using setCacheEntry_other [of "pkey (promises s ! q)" k res now
          "s\<lparr>pendingRequests := AList.delete (pkey (promises s ! q)) (pendingRequests s)\<rparr>"]
      by simp
    with Settle True show ?thesis
      by (cases outcome) (simp_all add: settle_def Let_def)
  next
    case False
    with Settle show ?thesis by (simp add: settle_idle)
  qed
next
  case (Invalidate key)
  with assms show ?thesis by (simp add: invalidate_def Let_def delete_conv')
next
  case Clear
  with assms show ?thesis by simp
qed





section \<open>Cache hits and validity\<close>

lemma isCacheValid_no_ttl: "\<not> truthy (ttl opts) \<Longrightarrow> \<not> isCacheValid opts now entry"
  by (cases "ttl opts") (simp_all add: isCacheValid_def)

lemma isCached_no_ttl: "\<not> truthy (ttl (options s)) \<Longrightarrow> \<not> isCached k now s"
  by (simp add: isCached_def isCacheValid_no_ttl split: option.splits)

lemma step_no_ttl_cache:
  "\<not> truthy (ttl (options s)) \<Longrightarrow> cache s = [] \<Longrightarrow> cache (step ev s) = []"
  by (cases ev) (simp_all add: settle_no_ttl_cache invalidate_def clear_def Let_def)

lemma run_no_ttl_cache:
  "\<not> truthy (ttl (options s)) \<Longrightarrow> cache s = [] \<Longrightarrow> cache (run evs s) = []"
proof (induction evs arbitrary: s)
  case Nil
  then show ?case by simp
next
  case (Cons ev evs)
  from Cons.prems have "cache (step ev s) = []" by (rule step_no_ttl_cache)
  moreover from Cons.prems have "\<not> truthy (ttl (options (step ev s)))" by simp
  ultimately show ?case using Cons.IH by simp
qed

lemma execute_uncached_no_value: "fst (execute_uncached k r s) \<noteq> Value v"
  by (simp add: execute_uncached_def Let_def split: option.splits thunk.splits)

lemma replies_no_ttl:
  "\<not> truthy (ttl (options s)) \<Longrightarrow> \<forall>a \<in> set (replies evs s). \<forall>v. snd a \<noteq> Value v"
proof (induction evs arbitrary: s)
  case Nil
  then show ?case by simp
next
  case (Cons ev evs)
  from Cons.prems have "\<not> truthy (ttl (options (step ev s)))" by simp
  from Cons.IH [OF this] have rest: "\<forall>a \<in> set (replies evs (step ev s)). \<forall>v. snd a \<noteq> Value v" .
  have here: "\<forall>a \<in> set (case ev of Execute key request now \<Rightarrow> [(key, fst (execute key request now s))] | _ \<Rightarrow> []).
      \<forall>v. snd a \<noteq> Value v"
    using Cons.prems
    by (cases ev) (simp_all add: execute_miss [OF isCached_no_ttl] execute_uncached_no_value)
  from rest here show ?case by auto
qed



text \<open>
  C5. An entry is valid exactly when \<^verbatim>\<open>ttl\<close> is configured (neither \<^verbatim>\<open>undefined\<close> nor \<open>0\<close>)
  and \<open>now - timestamp < ttl\<close>. Without a configured \<^verbatim>\<open>ttl\<close> no entry is valid, \<^verbatim>\<open>execute\<close>
  never answers from the cache: it calls the thunk when nothing is pending for the key and
  attaches to the pending request otherwise; a settlement only removes the pending entry
  and settles the promise; and over every run of a new coalescer the cache stays empty
  and no call is answered with a cached value.
\<close>

theorem validity_needs_ttl:
  "(isCacheValid opts now entry \<longleftrightarrow>
      truthy (ttl opts) \<and> (\<exists>T. ttl opts = Some T \<and> now - timestamp entry < T))
   \<and> (\<not> truthy (ttl (options s)) \<longrightarrow>
        \<not> isCacheValid (options s) now e
        \<and> \<not> isCached k now s
        \<and> execute k request now s = execute_uncached k request s
        \<and> (\<forall>v. fst (execute k request now s) \<noteq> Value v)
        \<and> cache (settle p outcome now s) = cache s
        \<and> accessOrder (settle p outcome now s) = accessOrder s)
   \<and> (\<not> truthy (ttl (options s1)) \<and> map_of (pendingRequests s1) k = None \<longrightarrow>
        invoked (snd (execute k request now s1)) = invoked s1 @ [(k, request)])
   \<and> (\<not> truthy (ttl (options s2)) \<and> map_of (pendingRequests s2) k = Some q \<longrightarrow>
        execute k request now s2 = (Promise q, s2))
   \<and> (\<not> truthy (ttl (options s3)) \<and> in_flight (promises s3) p \<longrightarrow>
        settle p outcome now s3 =
          s3\<lparr>pendingRequests := AList.delete (pkey (promises s3 ! p)) (pendingRequests s3),
             promises := (promises s3)[p := \<lparr>pkey = pkey (promises s3 ! p), pstate = settled outcome\<rparr>]\<rparr>)
   \<and> (\<not> truthy (ttl opts') \<longrightarrow>
        cache (run evs (new_coalescer opts' :: ('k, 'v, 'e, 'r) CachedRequestCoalescer)) = []
        \<and> (\<forall>a \<in> set (replies evs (new_coalescer opts' :: ('k, 'v, 'e, 'r) CachedRequestCoalescer)).
              \<forall>v. snd a \<noteq> Value v))"
proof (intro conjI impI)
  show "isCacheValid opts now entry \<longleftrightarrow>
      truthy (ttl opts) \<and> (\<exists>T. ttl opts = Some T \<and> now - timestamp entry < T)"
    by (cases "ttl opts") (auto simp: isCacheValid_def)
next
  assume no: "\<not> truthy (ttl (options s))"
  then show "\<not> isCacheValid (options s) now e" by (rule isCacheValid_no_ttl)
  from no show miss: "\<not> isCached k now s" by (rule isCached_no_ttl)
  from miss show eq: "execute k request now s = execute_uncached k request s" by (rule execute_miss)
  show "\<forall>v. fst (execute k request now s) \<noteq> Value v"
    by (simp add: eq execute_uncached_no_value)
  from no show "cache (settle p outcome now s) = cache s" by (rule settle_no_ttl_cache)
  from no show "accessOrder (settle p outcome now s) = accessOrder s" by (rule settle_no_ttl_cache)
next
  assume "\<not> truthy (ttl (options s1)) \<and> map_of (pendingRequests s1) k = None"
  then show "invoked (snd (execute k request now s1)) = invoked s1 @ [(k, request)]"
    by (simp add: execute_invokes isCached_no_ttl)
next
  assume "\<not> truthy (ttl (options s2)) \<and> map_of (pendingRequests s2) k = Some q"
  then show "execute k request now s2 = (Promise q, s2)"
    by (simp add: execute_attach isCached_no_ttl)
next
  assume "\<not> truthy (ttl (options s3)) \<and> in_flight (promises s3) p"
  then show "settle p outcome now s3 =
          s3\<lparr>pendingRequests := AList.delete (pkey (promises s3 ! p)) (pendingRequests s3),
             promises := (promises s3)[p := \<lparr>pkey = pkey (promises s3 ! p), pstate = settled outcome\<rparr>]\<rparr>"
    by (simp add: settle_no_ttl)
next
  assume no: "\<not> truthy (ttl opts')"
  then show "cache (run evs (new_coalescer opts' :: ('k, 'v, 'e, 'r) CachedRequestCoalescer)) = []"
    by (intro run_no_ttl_cache) (simp_all add: new_coalescer_def)
  from no show "\<forall>a \<in> set (replies evs (new_coalescer opts' :: ('k, 'v, 'e, 'r) CachedRequestCoalescer)).
              \<forall>v. snd a \<noteq> Value v"
    by (intro replies_no_ttl) (simp add: new_coalescer_def)
qed

theorem validity_needs_ttl_witness:
  "\<not> truthy (ttl \<lparr>ttl = None, maxSize = None\<rparr>)
   \<and> \<not> truthy (ttl \<lparr>ttl = Some 0, maxSize = None\<rparr>)
   \<and> map_of (pendingRequests (new_coalescer \<lparr>ttl = None, maxSize = None\<rparr> :: (string, string, string, string) CachedRequestCoalescer))
        (Val ''k'') = None
   \<and> invoked (snd (execute (Val ''k'') (Thunk ''op'') 6
        (new_coalescer \<lparr>ttl = None, maxSize = None\<rparr> :: (string, string, string, string) CachedRequestCoalescer)))
       = [(Val ''k'', Thunk ''op'')]
   \<and> map_of (pendingRequests (snd (execute (Val ''k'') (Thunk ''op'') 6
        (new_coalescer \<lparr>ttl = None, maxSize = None\<rparr> :: (string, string, string, string) CachedRequestCoalescer))))
        (Val ''k'') = Some 0
   \<and> fst (execute (Val ''k'') (Thunk ''op'') 6 (snd (execute (Val ''k'') (Thunk ''op'') 6
        (new_coalescer \<lparr>ttl = None, maxSize = None\<rparr> :: (string, string, string, string) CachedRequestCoalescer))))
       = Promise 0
   \<and> in_flight (promises (snd (execute (Val ''k'') (Thunk ''op'') 6
        (new_coalescer \<lparr>ttl = None, maxSize = None\<rparr> :: (string, string, string, string) CachedRequestCoalescer)))) 0
   \<and> cache (settle 0 (Resolves ''v'') 6 (snd (execute (Val ''k'') (Thunk ''op'') 6
        (new_coalescer \<lparr>ttl = None, maxSize = None\<rparr> :: (string, string, string, string) CachedRequestCoalescer)))) = []
   \<and> cache (run [Execute (Val ''k'') (Thunk ''op'') 5, Settle 0 (Resolves ''v'') 6, Execute (Val ''k'') (Thunk ''op'') 7]
        (new_coalescer \<lparr>ttl = Some 0, maxSize = None\<rparr> :: (string, string, string, string) CachedRequestCoalescer)) = []
   \<and> replies [Execute (Val ''k'') (Thunk ''op'') 5, Settle 0 (Resolves ''v'') 6, Execute (Val ''k'') (Thunk ''op'') 7]
        (new_coalescer \<lparr>ttl = Some 0, maxSize = None\<rparr> :: (string, string, string, string) CachedRequestCoalescer)
       = [(Val ''k'', Promise 0), (Val ''k'', Promise 1)]"
proof -
  let ?k = "Val ''k'' :: string js"
  let ?s1 = "new_coalescer \<lparr>ttl = None, maxSize = None\<rparr> :: (string, string, string, string) CachedRequestCoalescer"
  let ?s2 = "snd (execute ?k (Thunk ''op'') 6 ?s1)"
  let ?evs = "[Execute ?k (Thunk ''op'') 5, Settle 0 (Resolves ''v'') 6, Execute ?k (Thunk ''op'') 7]
      :: (string, string, string, string) event list"
  have a: "\<not> truthy (ttl \<lparr>ttl = None, maxSize = None\<rparr>)" "\<not> truthy (ttl \<lparr>ttl = Some 0, maxSize = None\<rparr>)"
    by simp_all
  have b1: "\<not> truthy (ttl (options ?s1))" "map_of (pendingRequests ?s1) ?k = None"
    by (simp_all add: new_coalescer_def)
  have b2: "\<not> truthy (ttl (options ?s2))" "map_of (pendingRequests ?s2) ?k = Some 0" "in_flight (promises ?s2) 0"
    by (simp_all add: coalescer_eval)
  have r: "replies ?evs (new_coalescer \<lparr>ttl = Some 0, maxSize = None\<rparr> :: (string, string, string, string) CachedRequestCoalescer)
       = [(?k, Promise 0), (?k, Promise 1)]"
    by (simp add: coalescer_eval)
  note inst = validity_needs_ttl
    [where opts = "\<lparr>ttl = None, maxSize = None\<rparr>" and now = 6 and entry = "\<lparr>result = ''v'', timestamp = 0\<rparr>"
       and s = "?s2" and e = "\<lparr>result = ''v'', timestamp = 0\<rparr>" and k = "?k" and request = "Thunk ''op''"
       and p = 0 and outcome = "Resolves ''v''" and ?s1.0 = "?s1" and ?s2.0 = "?s2" and q = 0 and ?s3.0 = "?s2"
       and opts' = "\<lparr>ttl = Some 0, maxSize = None\<rparr>" and evs = "?evs"]
  from inst b1 have d1: "invoked (snd (execute ?k (Thunk ''op'') 6 ?s1)) = invoked ?s1 @ [(?k, Thunk ''op'')]"
    by blast
  from inst b2 have d2: "execute ?k (Thunk ''op'') 6 ?s2 = (Promise 0, ?s2)"
    by blast
  from inst b2 have d3: "cache (settle 0 (Resolves ''v'') 6 ?s2) = cache ?s2"
    by blast
  from inst a have d4: "cache (run ?evs (new_coalescer \<lparr>ttl = Some 0, maxSize = None\<rparr> :: (string, string, string, string) CachedRequestCoalescer)) = []"
    by blast
  have d1': "invoked (snd (execute ?k (Thunk ''op'') 6 ?s1)) = [(?k, Thunk ''op'')]"
    unfolding d1 by (simp add: new_coalescer_def)
  have d2': "fst (execute ?k (Thunk ''op'') 6 ?s2) = Promise 0"
    unfolding d2 by simp
  have d3': "cache (settle 0 (Resolves ''v'') 6 ?s2) = []"
    unfolding d3 by (simp add: new_coalescer_def)
  show ?thesis
    by (intro conjI) (fact a b1 d1' b2 d2' d3' d4 r)+
qed

section \<open>Expiry\<close>

lemma step_keeps_cache:
  assumes "keeps_entry k c T ev s"
  shows "map_of (cache (step ev s)) k = None \<or> map_of (cache (step ev s)) k = map_of (cache s) k"
proof (cases ev)
  case (Execute key request now)
  then show ?thesis by simp
next
  case (Settle q outcome now)
  with assms have "leaves k ev s" by simp
  then show ?thesis by (rule step_leaves_cache)
next
  case (Invalidate key)
  then show ?thesis by (simp add: invalidate_def Let_def delete_conv')
next
  case Clear
  then show ?thesis by (simp add: clear_def)
qed

lemma run_keeps_cache:
  "entry_kept k c T evs s \<Longrightarrow>
   map_of (cache (run evs s)) k = None \<or> map_of (cache (run evs s)) k = map_of (cache s) k"
proof (induction evs arbitrary: s)
  case Nil
  then show ?case by simp
next
  case (Cons ev evs)
  from Cons.prems have one: "keeps_entry k c T ev s" and rest: "entry_kept k c T evs (step ev s)"
    by simp_all
  from Cons.IH [OF rest] step_keeps_cache [OF one] show ?case by auto
qed

text \<open>
  While the entry is kept and was still there at the end of the run, every call for the
  key was answered with the stored result, no thunk was called for the key, and nothing
  has become pending for it.
\<close>

lemma run_entry_kept:
  "ttl (options s) = Some T \<Longrightarrow> T \<noteq> 0 \<Longrightarrow> entry_kept k c T evs s \<Longrightarrow>
   map_of (pendingRequests s) k = None \<Longrightarrow>
   map_of (cache (run evs s)) k = Some \<lparr>result = v, timestamp = c\<rparr> \<Longrightarrow>
   (\<forall>a \<in> set (replies evs s). fst a = k \<longrightarrow> snd a = Value v)
   \<and> filter (\<lambda>x. fst x = k) (invoked (run evs s)) = filter (\<lambda>x. fst x = k) (invoked s)
   \<and> map_of (pendingRequests (run evs s)) k = None"
proof (induction evs arbitrary: s)
  case Nil
  then show ?case by simp
next
  case (Cons ev evs)
  from Cons.prems(3) have one: "keeps_entry k c T ev s" and rest: "entry_kept k c T evs (step ev s)"
    by simp_all
  from Cons.prems(5) have fin: "map_of (cache (run evs (step ev s))) k = Some \<lparr>result = v, timestamp = c\<rparr>"
    by simp
  from run_keeps_cache [OF Cons.prems(3)] Cons.prems(5)
  have entry: "map_of (cache s) k = Some \<lparr>result = v, timestamp = c\<rparr>" by auto
  have opts: "ttl (options (step ev s)) = Some T" using Cons.prems(1) by simp
  have here: "map_of (pendingRequests (step ev s)) k = None
      \<and> filter (\<lambda>x. fst x = k) (invoked (step ev s)) = filter (\<lambda>x. fst x = k) (invoked s)
      \<and> (\<forall>a \<in> set (case ev of Execute key request now \<Rightarrow> [(key, fst (execute key request now s))] | _ \<Rightarrow> []).
            fst a = k \<longrightarrow> snd a = Value v)"
  proof (cases "\<exists>r now. ev = Execute k r now")
    case True
    then obtain r now where ev: "ev = Execute k r now" by blast
    with one have "now - c < T" by simp
    with Cons.prems(1,2) have "isCacheValid (options s) now \<lparr>result = v, timestamp = c\<rparr>"
      by (simp add: isCacheValid_def)
    from execute_hit [OF entry this, of r] ev Cons.prems(4) show ?thesis by simp
  next
    case False
    then have other: "\<forall>r now. ev \<noteq> Execute k r now" by blast
    from step_other [OF other disjI1 [OF Cons.prems(4)], of 0] Cons.prems(4)
    have "map_of (pendingRequests (step ev s)) k = None
      \<and> filter (\<lambda>x. fst x = k) (invoked (step ev s)) = filter (\<lambda>x. fst x = k) (invoked s)"
      by simp
    moreover from other have "\<forall>a \<in> set (case ev of Execute key request now \<Rightarrow> [(key, fst (execute key request now s))] | _ \<Rightarrow> []).
            fst a = k \<longrightarrow> snd a = Value v"
      by (cases ev) auto
    ultimately show ?thesis by blast
  qed
  from here have none': "map_of (pendingRequests (step ev s)) k = None" by blast
  from Cons.IH [OF opts Cons.prems(2) rest none' fin] here show ?case by auto
qed

text \<open>
  C6. With \<^verbatim>\<open>ttl\<close> \<open>T\<close> configured and an entry for \<open>k\<close> written at time \<open>c\<close>: a call for
  \<open>k\<close> at a time \<open>now\<close> with \<open>now - c < T\<close> returns the stored result and only touches
  the access order; a call with \<open>T \<le> later - c\<close>, nothing being pending for \<open>k\<close>, calls its
  thunk and registers a new promise; and when a request of \<open>k\<close> resolves, the entry of
  \<open>k\<close> holds the new result and the time of the settlement. Nothing is pending for \<open>k\<close>
  when the entry expires: from the settlement that wrote the entry, over every run of steps
  that keep the entry (calls for \<open>k\<close> before the expiry, any steps for other keys), all
  calls for \<open>k\<close> were answered with the stored result, no thunk was called for \<open>k\<close>, and
  the first call for \<open>k\<close> at or after the expiry calls its thunk.
\<close>

theorem expiry_refreshes_entry:
  "(ttl (options s) = Some T \<and> T \<noteq> 0 \<and> map_of (cache s) k = Some \<lparr>result = v, timestamp = c\<rparr>
      \<and> now - c < T \<longrightarrow>
      execute k request now s = (Value v, s\<lparr>accessOrder := updateAccessOrder k (accessOrder s)\<rparr>))
   \<and> (ttl (options s) = Some T \<and> T \<noteq> 0 \<and> map_of (cache s) k = Some \<lparr>result = v, timestamp = c\<rparr>
      \<and> T \<le> later - c \<and> map_of (pendingRequests s) k = None \<longrightarrow>
      execute k (Thunk op) later s =
        (Promise (length (promises s)),
         s\<lparr>invoked := invoked s @ [(k, Thunk op)],
           promises := promises s @ [\<lparr>pkey = k, pstate = Pending\<rparr>],
           pendingRequests := AList.update k (length (promises s)) (pendingRequests s)\<rparr>))
   \<and> (in_flight (promises s') p \<and> truthy (ttl (options s')) \<longrightarrow>
      map_of (cache (settle p (Resolves v') now' s')) (pkey (promises s' ! p))
        = Some \<lparr>result = v', timestamp = now'\<rparr>)
   \<and> (let s1 = settle q (Resolves v) c s0;
           s2 = run evs s1;
           s3 = snd (execute k (Thunk op) later s2) in
       in_flight (promises s0) q \<and> pkey (promises s0 ! q) = k \<and> ttl (options s0) = Some T \<and> T \<noteq> 0
         \<and> entry_kept k c T evs s1 \<and> map_of (cache s2) k = Some \<lparr>result = v, timestamp = c\<rparr>
         \<and> T \<le> later - c \<longrightarrow>
         map_of (cache s1) k = Some \<lparr>result = v, timestamp = c\<rparr>
         \<and> (\<forall>a \<in> set (replies evs s1). fst a = k \<longrightarrow> snd a = Value v)
         \<and> filter (\<lambda>x. fst x = k) (invoked s2) = filter (\<lambda>x. fst x = k) (invoked s0)
         \<and> map_of (pendingRequests s2) k = None
         \<and> fst (execute k (Thunk op) later s2) = Promise (length (promises s2))
         \<and> invoked s3 = invoked s2 @ [(k, Thunk op)]
         \<and> map_of (cache (settle (length (promises s2)) (Resolves v') now' s3)) k
             = Some \<lparr>result = v', timestamp = now'\<rparr>)"
proof (intro conjI)
  show "ttl (options s) = Some T \<and> T \<noteq> 0 \<and> map_of (cache s) k = Some \<lparr>result = v, timestamp = c\<rparr>
      \<and> now - c < T \<longrightarrow>
      execute k request now s = (Value v, s\<lparr>accessOrder := updateAccessOrder k (accessOrder s)\<rparr>)"
    by (simp add: execute_def isCacheValid_def)
next
  show "ttl (options s) = Some T \<and> T \<noteq> 0 \<and> map_of (cache s) k = Some \<lparr>result = v, timestamp = c\<rparr>
      \<and> T \<le> later - c \<and> map_of (pendingRequests s) k = None \<longrightarrow>
      execute k (Thunk op) later s =
        (Promise (length (promises s)),
         s\<lparr>invoked := invoked s @ [(k, Thunk op)],
           promises := promises s @ [\<lparr>pkey = k, pstate = Pending\<rparr>],
           pendingRequests := AList.update k (length (promises s)) (pendingRequests s)\<rparr>)"
    by (simp add: execute_def execute_uncached_def isCacheValid_def Let_def)
next
  show "in_flight (promises s') p \<and> truthy (ttl (options s')) \<longrightarrow>
      map_of (cache (settle p (Resolves v') now' s')) (pkey (promises s' ! p))
        = Some \<lparr>result = v', timestamp = now'\<rparr>"
    by (simp add: settle_resolves_lookup)
next
  let ?s1 = "settle q (Resolves v) c s0"
  let ?s2 = "run evs ?s1"
  let ?s3 = "snd (execute k (Thunk op) later ?s2)"
  have main: "map_of (cache ?s1) k = Some \<lparr>result = v, timestamp = c\<rparr>
         \<and> (\<forall>a \<in> set (replies evs ?s1). fst a = k \<longrightarrow> snd a = Value v)
         \<and> filter (\<lambda>x. fst x = k) (invoked ?s2) = filter (\<lambda>x. fst x = k) (invoked s0)
         \<and> map_of (pendingRequests ?s2) k = None
         \<and> fst (execute k (Thunk op) later ?s2) = Promise (length (promises ?s2))
         \<and> invoked ?s3 = invoked ?s2 @ [(k, Thunk op)]
         \<and> map_of (cache (settle (length (promises ?s2)) (Resolves v') now' ?s3)) k
             = Some \<lparr>result = v', timestamp = now'\<rparr>"
    if fl: "in_flight (promises s0) q" and key: "pkey (promises s0 ! q) = k"
      and T: "ttl (options s0) = Some T" "T \<noteq> 0" and kept: "entry_kept k c T evs ?s1"
      and fin: "map_of (cache ?s2) k = Some \<lparr>result = v, timestamp = c\<rparr>" and late: "T \<le> later - c"
  proof -
    from T have tr: "truthy (ttl (options s0))" by simp
    have a: "map_of (cache ?s1) k = Some \<lparr>result = v, timestamp = c\<rparr>"
      using settle_resolves_lookup [OF fl tr, of v c] key by simp
    have none1: "map_of (pendingRequests ?s1) k = None"
      using settle_pending [OF fl, of "Resolves v" c] key by (simp add: delete_conv')
    have T1: "ttl (options ?s1) = Some T" using T by simp
    note win = run_entry_kept [OF T1 T(2) kept none1 fin]
    from win have none2: "map_of (pendingRequests ?s2) k = None" by blast
    have T2: "ttl (options ?s2) = Some T" using T by simp
    have miss: "\<not> isCached k later ?s2"
      using fin T2 T(2) late by (simp add: isCached_def isCacheValid_def)
    note start = execute_start [OF miss none2, of op]
    have b: "fst (execute k (Thunk op) later ?s2) = Promise (length (promises ?s2))"
      and c: "invoked ?s3 = invoked ?s2 @ [(k, Thunk op)]"
      and fl3: "in_flight (promises ?s3) (length (promises ?s2))"
      and key3: "pkey (promises ?s3 ! length (promises ?s2)) = k"
      by (simp_all add: start)
    have tr3: "truthy (ttl (options ?s3))" using T by simp
    have d: "map_of (cache (settle (length (promises ?s2)) (Resolves v') now' ?s3)) k
             = Some \<lparr>result = v', timestamp = now'\<rparr>"
      using settle_resolves_lookup [OF fl3 tr3, of v' now'] key3 by simp
    from a win b c d show ?thesis by simp
  qed
  show "let s1 = settle q (Resolves v) c s0;
           s2 = run evs s1;
           s3 = snd (execute k (Thunk op) later s2) in
       in_flight (promises s0) q \<and> pkey (promises s0 ! q) = k \<and> ttl (options s0) = Some T \<and> T \<noteq> 0
         \<and> entry_kept k c T evs s1 \<and> map_of (cache s2) k = Some \<lparr>result = v, timestamp = c\<rparr>
         \<and> T \<le> later - c \<longrightarrow>
         map_of (cache s1) k = Some \<lparr>result = v, timestamp = c\<rparr>
         \<and> (\<forall>a \<in> set (replies evs s1). fst a = k \<longrightarrow> snd a = Value v)
         \<and> filter (\<lambda>x. fst x = k) (invoked s2) = filter (\<lambda>x. fst x = k) (invoked s0)
         \<and> map_of (pendingRequests s2) k = None
         \<and> fst (execute k (Thunk op) later s2) = Promise (length (promises s2))
         \<and> invoked s3 = invoked s2 @ [(k, Thunk op)]
         \<and> map_of (cache (settle (length (promises s2)) (Resolves v') now' s3)) k
             = Some \<lparr>result = v', timestamp = now'\<rparr>"
    unfolding Let_def by (intro impI, elim conjE, rule main)
qed

theorem expiry_refreshes_entry_witness:
  "in_flight (promises (snd (execute (Val ''k'') (Thunk ''fn'') 0
       (new_coalescer \<lparr>ttl = Some 1000, maxSize = None\<rparr> :: (string, string, string, string) CachedRequestCoalescer)))) 0
   \<and> map_of (cache (run [Execute (Val ''k'') (Thunk ''fn'') 0, Settle 0 (Resolves ''v'') 0]
       (new_coalescer \<lparr>ttl = Some 1000, maxSize = None\<rparr> :: (string, string, string, string) CachedRequestCoalescer)))
       (Val ''k'') = Some \<lparr>result = ''v'', timestamp = 0\<rparr>
   \<and> (999::int) - 0 < 1000 \<and> (1000::int) \<le> 1001 - 0
   \<and> fst (execute (Val ''k'') (Thunk ''fn'') 999 (run [Execute (Val ''k'') (Thunk ''fn'') 0, Settle 0 (Resolves ''v'') 0]
       (new_coalescer \<lparr>ttl = Some 1000, maxSize = None\<rparr> :: (string, string, string, string) CachedRequestCoalescer)))
       = Value ''v''
   \<and> entry_kept (Val ''k'') 0 1000 [Execute (Val ''k'') (Thunk ''fn'') 1, Execute (Val ''j'') (Thunk ''fj'') 2,
         Settle 1 (Resolves ''w'') 3, Execute (Val ''k'') (Thunk ''fn'') 999]
       (run [Execute (Val ''k'') (Thunk ''fn'') 0, Settle 0 (Resolves ''v'') 0]
       (new_coalescer \<lparr>ttl = Some 1000, maxSize = None\<rparr> :: (string, string, string, string) CachedRequestCoalescer))
   \<and> replies [Execute (Val ''k'') (Thunk ''fn'') 1, Execute (Val ''j'') (Thunk ''fj'') 2,
         Settle 1 (Resolves ''w'') 3, Execute (Val ''k'') (Thunk ''fn'') 999]
       (run [Execute (Val ''k'') (Thunk ''fn'') 0, Settle 0 (Resolves ''v'') 0]
       (new_coalescer \<lparr>ttl = Some 1000, maxSize = None\<rparr> :: (string, string, string, string) CachedRequestCoalescer))
       = [(Val ''k'', Value ''v''), (Val ''j'', Promise 1), (Val ''k'', Value ''v'')]
   \<and> map_of (cache (run [Execute (Val ''k'') (Thunk ''fn'') 0, Settle 0 (Resolves ''v'') 0,
         Execute (Val ''k'') (Thunk ''fn'') 1, Execute (Val ''j'') (Thunk ''fj'') 2,
         Settle 1 (Resolves ''w'') 3, Execute (Val ''k'') (Thunk ''fn'') 999]
       (new_coalescer \<lparr>ttl = Some 1000, maxSize = None\<rparr> :: (string, string, string, string) CachedRequestCoalescer)))
       (Val ''k'') = Some \<lparr>result = ''v'', timestamp = 0\<rparr>
   \<and> replies [Execute (Val ''k'') (Thunk ''fn'') 1001]
       (run [Execute (Val ''k'') (Thunk ''fn'') 0, Settle 0 (Resolves ''v'') 0,
         Execute (Val ''k'') (Thunk ''fn'') 1, Execute (Val ''j'') (Thunk ''fj'') 2,
         Settle 1 (Resolves ''w'') 3, Execute (Val ''k'') (Thunk ''fn'') 999]
       (new_coalescer \<lparr>ttl = Some 1000, maxSize = None\<rparr> :: (string, string, string, string) CachedRequestCoalescer))
       = [(Val ''k'', Promise 2)]
   \<and> invoked (run [Execute (Val ''k'') (Thunk ''fn'') 0, Settle 0 (Resolves ''v'') 0,
         Execute (Val ''k'') (Thunk ''fn'') 1, Execute (Val ''j'') (Thunk ''fj'') 2,
         Settle 1 (Resolves ''w'') 3, Execute (Val ''k'') (Thunk ''fn'') 999, Execute (Val ''k'') (Thunk ''fn'') 1001]
       (new_coalescer \<lparr>ttl = Some 1000, maxSize = None\<rparr> :: (string, string, string, string) CachedRequestCoalescer))
       = [(Val ''k'', Thunk ''fn''), (Val ''j'', Thunk ''fj''), (Val ''k'', Thunk ''fn'')]
   \<and> map_of (cache (run [Execute (Val ''k'') (Thunk ''fn'') 0, Settle 0 (Resolves ''v'') 0,
         Execute (Val ''k'') (Thunk ''fn'') 1, Execute (Val ''j'') (Thunk ''fj'') 2,
         Settle 1 (Resolves ''w'') 3, Execute (Val ''k'') (Thunk ''fn'') 999, Execute (Val ''k'') (Thunk ''fn'') 1001,
         Settle 2 (Resolves ''v2'') 1050]
       (new_coalescer \<lparr>ttl = Some 1000, maxSize = None\<rparr> :: (string, string, string, string) CachedRequestCoalescer)))
       (Val ''k'') = Some \<lparr>result = ''v2'', timestamp = 1050\<rparr>"
proof -
  let ?k = "Val ''k'' :: string js"
  let ?new = "new_coalescer \<lparr>ttl = Some 1000, maxSize = None\<rparr> :: (string, string, string, string) CachedRequestCoalescer"
  let ?s0 = "snd (execute ?k (Thunk ''fn'') 0 ?new)"
  let ?s1 = "run [Execute ?k (Thunk ''fn'') 0, Settle 0 (Resolves ''v'') 0] ?new"
  let ?evs = "[Execute ?k (Thunk ''fn'') 1, Execute (Val ''j'') (Thunk ''fj'') 2,
         Settle 1 (Resolves ''w'') 3, Execute ?k (Thunk ''fn'') 999] :: (string, string, string, string) event list"
  let ?s2 = "run [Execute ?k (Thunk ''fn'') 0, Settle 0 (Resolves ''v'') 0,
         Execute ?k (Thunk ''fn'') 1, Execute (Val ''j'') (Thunk ''fj'') 2,
         Settle 1 (Resolves ''w'') 3, Execute ?k (Thunk ''fn'') 999] ?new"
  have s1: "settle 0 (Resolves ''v'') 0 ?s0 = ?s1" by simp
  have s2: "run ?evs ?s1 = ?s2" by simp
  have h1: "in_flight (promises ?s0) 0" "pkey (promises ?s0 ! 0) = ?k" "ttl (options ?s0) = Some 1000"
    by (simp_all add: coalescer_eval)
  have h2: "ttl (options ?s1) = Some 1000" "(1000::int) \<noteq> 0"
    "map_of (cache ?s1) ?k = Some \<lparr>result = ''v'', timestamp = 0\<rparr>"
    "(999::int) - 0 < 1000" "(1000::int) \<le> 1001 - 0"
    by (simp_all add: coalescer_eval)
  have h3: "entry_kept ?k 0 1000 ?evs ?s1" by (simp add: coalescer_eval)
  have h4: "map_of (cache ?s2) ?k = Some \<lparr>result = ''v'', timestamp = 0\<rparr>"
    by (simp add: coalescer_eval)
  have r1: "replies ?evs ?s1 = [(?k, Value ''v''), (Val ''j'', Promise 1), (?k, Value ''v'')]"
    by (simp add: coalescer_eval)
  have len: "length (promises ?s2) = 2" by (simp add: coalescer_eval)
  note inst = expiry_refreshes_entry
    [where s = "?s1" and T = 1000 and k = "?k" and v = "''v''" and c = 0 and now = 999 and later = 1001
       and request = "Thunk ''fn''" and op = "''fn''" and s' = "?s0" and p = 0 and v' = "''v2''" and now' = 1050
       and q = 0 and ?s0.0 = "?s0" and evs = "?evs",
     unfolded Let_def s1 s2]
  note A = inst [THEN conjunct1, THEN mp, OF conjI [OF h2(1) conjI [OF h2(2) conjI [OF h2(3) h2(4)]]]]
  note D = inst [THEN conjunct2, THEN conjunct2, THEN conjunct2, THEN mp,
      OF conjI [OF h1(1) conjI [OF h1(2) conjI [OF h1(3) conjI [OF h2(2) conjI [OF h3 conjI [OF h4 h2(5)]]]]]]]
  have c1: "fst (execute ?k (Thunk ''fn'') 999 ?s1) = Value ''v''"
    unfolding A by simp
  from D have d1: "fst (execute ?k (Thunk ''fn'') 1001 ?s2) = Promise (length (promises ?s2))"
    by (elim conjE)
  from D have d2: "invoked (snd (execute ?k (Thunk ''fn'') 1001 ?s2)) = invoked ?s2 @ [(?k, Thunk ''fn'')]"
    by (elim conjE)
  from D have d3: "map_of (cache (settle (length (promises ?s2)) (Resolves ''v2'') 1050
               (snd (execute ?k (Thunk ''fn'') 1001 ?s2)))) ?k = Some \<lparr>result = ''v2'', timestamp = 1050\<rparr>"
    by (elim conjE)
  have c2: "replies [Execute ?k (Thunk ''fn'') 1001] ?s2 = [(?k, Promise 2)]"
    using d1 unfolding len by simp
  have inv2: "invoked ?s2 = [(?k, Thunk ''fn''), (Val ''j'', Thunk ''fj'')]"
    by (simp add: coalescer_eval)
  have run3: "run [Execute ?k (Thunk ''fn'') 0, Settle 0 (Resolves ''v'') 0,
         Execute ?k (Thunk ''fn'') 1, Execute (Val ''j'') (Thunk ''fj'') 2,
         Settle 1 (Resolves ''w'') 3, Execute ?k (Thunk ''fn'') 999, Execute ?k (Thunk ''fn'') 1001] ?new
       = snd (execute ?k (Thunk ''fn'') 1001 ?s2)"
    using run_append [of "[Execute ?k (Thunk ''fn'') 0, Settle 0 (Resolves ''v'') 0,
         Execute ?k (Thunk ''fn'') 1, Execute (Val ''j'') (Thunk ''fj'') 2,
         Settle 1 (Resolves ''w'') 3, Execute ?k (Thunk ''fn'') 999]" "[Execute ?k (Thunk ''fn'') 1001]" ?new]
    by simp
  have run4: "run [Execute ?k (Thunk ''fn'') 0, Settle 0 (Resolves ''v'') 0,
         Execute ?k (Thunk ''fn'') 1, Execute (Val ''j'') (Thunk ''fj'') 2,
         Settle 1 (Resolves ''w'') 3, Execute ?k (Thunk ''fn'') 999, Execute ?k (Thunk ''fn'') 1001,
         Settle 2 (Resolves ''v2'') 1050] ?new
       = settle 2 (Resolves ''v2'') 1050 (snd (execute ?k (Thunk ''fn'') 1001 ?s2))"
    using run_append [of "[Execute ?k (Thunk ''fn'') 0, Settle 0 (Resolves ''v'') 0,
         Execute ?k (Thunk ''fn'') 1, Execute (Val ''j'') (Thunk ''fj'') 2,
         Settle 1 (Resolves ''w'') 3, Execute ?k (Thunk ''fn'') 999]"
         "[Execute ?k (Thunk ''fn'') 1001, Settle 2 (Resolves ''v2'') 1050]" ?new]
    by simp
  have c3: "invoked (run [Execute ?k (Thunk ''fn'') 0, Settle 0 (Resolves ''v'') 0,
         Execute ?k (Thunk ''fn'') 1, Execute (Val ''j'') (Thunk ''fj'') 2,
         Settle 1 (Resolves ''w'') 3, Execute ?k (Thunk ''fn'') 999, Execute ?k (Thunk ''fn'') 1001] ?new)
       = [(?k, Thunk ''fn''), (Val ''j'', Thunk ''fj''), (?k, Thunk ''fn'')]"
    unfolding run3 d2 inv2 by simp
  have c4: "map_of (cache (run [Execute ?k (Thunk ''fn'') 0, Settle 0 (Resolves ''v'') 0,
         Execute ?k (Thunk ''fn'') 1, Execute (Val ''j'') (Thunk ''fj'') 2,
         Settle 1 (Resolves ''w'') 3, Execute ?k (Thunk ''fn'') 999, Execute ?k (Thunk ''fn'') 1001,
         Settle 2 (Resolves ''v2'') 1050] ?new)) ?k = Some \<lparr>result = ''v2'', timestamp = 1050\<rparr>"
    unfolding run4 using d3 unfolding len .
  show ?thesis
    by (intro conjI) (fact h1(1) h2(3) h2(4) h2(5) c1 h3 r1 h4 c2 c3 c4)+
qed

section \<open>Least-recently-used eviction\<close>

lemma update_new: "k \<notin> fst ` set al \<Longrightarrow> AList.update k v al = al @ [(k, v)]"
  by (induction al) auto

lemma set_remove1_distinct: "distinct xs \<Longrightarrow> set (remove1 x xs) = set xs - {x}"
  by simp

lemma cache_inv_new [simp]: "cache_inv (new_coalescer opts)"
  by (simp add: cache_inv_def new_coalescer_def)

lemma cache_invI:
  "distinct (map fst (cache s)) \<Longrightarrow> distinct (accessOrder s) \<Longrightarrow>
   set (accessOrder s) = fst ` set (cache s) \<Longrightarrow> NaN \<notin> set (accessOrder s) \<Longrightarrow> cache_inv s"
  unfolding cache_inv_def by blast

lemma cache_invD:
  assumes "cache_inv s"
  shows "distinct (map fst (cache s))" and "distinct (accessOrder s)"
    and "set (accessOrder s) = fst ` set (cache s)" and "NaN \<notin> set (accessOrder s)"
  using assms unfolding cache_inv_def by blast+

lemma moved_last:
  assumes "distinct xs" and "NaN \<notin> set xs" and "k \<noteq> NaN"
  shows "distinct (updateAccessOrder k xs)" and "set (updateAccessOrder k xs) = insert k (set xs)"
    and "NaN \<notin> set (updateAccessOrder k xs)"
  using assms by (auto simp: updateAccessOrder_eq)

lemma delete_key_set: "fst ` set (AList.delete k al) = fst ` set al - {k}"
  using delete_keys [of k al] by (metis list.set_map set_removeAll)

lemma cache_inv_touch:
  assumes inv: "cache_inv s" and mem: "k \<in> fst ` set (cache s)"
  shows "cache_inv (s\<lparr>accessOrder := updateAccessOrder k (accessOrder s)\<rparr>)"
proof (rule cache_invI)
  note d = cache_invD [OF inv]
  from mem d(3) have k: "k \<in> set (accessOrder s)" by simp
  with d(4) have nan: "k \<noteq> NaN" by auto
  note m = moved_last [OF d(2) d(4) nan]
  show "distinct (map fst (cache (s\<lparr>accessOrder := updateAccessOrder k (accessOrder s)\<rparr>)))"
    using d(1) by simp
  show "distinct (accessOrder (s\<lparr>accessOrder := updateAccessOrder k (accessOrder s)\<rparr>))"
    using m(1) by simp
  show "set (accessOrder (s\<lparr>accessOrder := updateAccessOrder k (accessOrder s)\<rparr>))
      = fst ` set (cache (s\<lparr>accessOrder := updateAccessOrder k (accessOrder s)\<rparr>))"
    using m(2) k d(3) by (simp add: insert_absorb)
  show "NaN \<notin> set (accessOrder (s\<lparr>accessOrder := updateAccessOrder k (accessOrder s)\<rparr>))"
    using m(3) by simp
qed

lemma cache_inv_evict:
  assumes inv: "cache_inv s" and ord: "accessOrder s = lru # rest"
  shows "cache_inv (s\<lparr>cache := AList.delete lru (cache s), accessOrder := rest\<rparr>)"
proof (rule cache_invI)
  note d = cache_invD [OF inv]
  from d(2) ord have o: "distinct rest" "lru \<notin> set rest" by simp_all
  from d(3) ord have eq: "insert lru (set rest) = fst ` set (cache s)" by simp
  show "distinct (map fst (cache (s\<lparr>cache := AList.delete lru (cache s), accessOrder := rest\<rparr>)))"
    using d(1) by (simp add: distinct_delete)
  show "distinct (accessOrder (s\<lparr>cache := AList.delete lru (cache s), accessOrder := rest\<rparr>))"
    using o by simp
  have "set rest = fst ` set (cache s) - {lru}" using eq o(2) by blast
  then show "set (accessOrder (s\<lparr>cache := AList.delete lru (cache s), accessOrder := rest\<rparr>))
      = fst ` set (cache (s\<lparr>cache := AList.delete lru (cache s), accessOrder := rest\<rparr>))"
    by (simp add: delete_key_set)
  show "NaN \<notin> set (accessOrder (s\<lparr>cache := AList.delete lru (cache s), accessOrder := rest\<rparr>))"
    using d(4) ord by simp
qed

lemma cache_inv_write:
  assumes inv: "cache_inv s" and key: "key \<noteq> NaN"
  shows "cache_inv (s\<lparr>cache := AList.update key e (cache s),
            accessOrder := updateAccessOrder key (accessOrder s)\<rparr>)"
proof (rule cache_invI)
  let ?s' = "s\<lparr>cache := AList.update key e (cache s), accessOrder := updateAccessOrder key (accessOrder s)\<rparr>"
  note d = cache_invD [OF inv]
  note m = moved_last [OF d(2) d(4) key]
  show "distinct (map fst (cache ?s'))" using d(1) by (simp add: distinct_update)
  show "distinct (accessOrder ?s')" using m(1) by simp
  show "set (accessOrder ?s') = fst ` set (cache ?s')" using m(2) d(3) by (simp add: dom_update)
  show "NaN \<notin> set (accessOrder ?s')" using m(3) by simp
qed

lemma cache_inv_frame:
  "cache s' = cache s \<Longrightarrow> accessOrder s' = accessOrder s \<Longrightarrow> cache_inv s' = cache_inv s"
  by (simp add: cache_inv_def)

lemma setCacheEntry_inv:
  assumes inv: "cache_inv s" and key: "key \<noteq> NaN"
  shows "cache_inv (setCacheEntry key res now s)"
proof -
  let ?evict = "truthy (maxSize (options s)) \<and>
      (case maxSize (options s) of None \<Rightarrow> False | Some m \<Rightarrow> int (length (cache s)) \<ge> m)"
  let ?lru = "case accessOrder s of [] \<Rightarrow> Undefined | front # rest \<Rightarrow> front"
  let ?s1 = "if ?evict \<and> ?lru \<noteq> Undefined
      then s\<lparr>cache := AList.delete ?lru (cache s), accessOrder := tl (accessOrder s)\<rparr> else s"
  have s1: "cache_inv ?s1"
  proof (cases "?evict \<and> ?lru \<noteq> Undefined")
    case True
    then obtain front rest where o: "accessOrder s = front # rest"
      by (cases "accessOrder s") auto
    with True cache_inv_evict [OF inv o] show ?thesis by simp
  next
    case False
    with inv show ?thesis by auto
  qed
  have eq: "setCacheEntry key res now s =
      ?s1\<lparr>cache := AList.update key \<lparr>result = res, timestamp = now\<rparr> (cache ?s1),
          accessOrder := updateAccessOrder key (accessOrder ?s1)\<rparr>"
    by (auto simp: setCacheEntry_def Let_def)
  show ?thesis unfolding eq using s1 key by (rule cache_inv_write)
qed

lemma cache_inv_invalidate:
  assumes inv: "cache_inv s"
  shows "cache_inv (invalidate key s)"
proof (rule cache_invI)
  note d = cache_invD [OF inv]
  have ord: "accessOrder (invalidate key s) = (if key = NaN then accessOrder s else remove1 key (accessOrder s))"
    by (simp add: invalidate_def Let_def removeIndex_eq)
  have c: "cache (invalidate key s) = AList.delete key (cache s)"
    by (simp add: invalidate_def Let_def)
  show "distinct (map fst (cache (invalidate key s)))" unfolding c using d(1) by (simp add: distinct_delete)
  show "distinct (accessOrder (invalidate key s))" unfolding ord using d(2) by simp
  show "NaN \<notin> set (accessOrder (invalidate key s))" unfolding ord using d(2) d(4) by auto
  show "set (accessOrder (invalidate key s)) = fst ` set (cache (invalidate key s))"
  proof (cases "key = NaN")
    case True
    with d(3) d(4) have "key \<notin> fst ` set (cache s)" by auto
    with True d(3) show ?thesis unfolding ord c by (simp add: delete_key_set)
  next
    case False
    with d(2) d(3) show ?thesis unfolding ord c by (simp add: delete_key_set)
  qed
qed

text \<open>
  The invariant is kept by every step, as long as no call is made for the key \<^verbatim>\<open>NaN\<close>
  (the keys of the promises in the heap are the keys of earlier calls).
\<close>

lemma execute_uncached_frame [simp]:
  "cache (snd (execute_uncached key request s)) = cache s"
  "accessOrder (snd (execute_uncached key request s)) = accessOrder s"
  by (simp_all add: execute_uncached_def Let_def split: option.splits thunk.splits)

lemma settle_resolves_frame:
  "in_flight (promises s) q \<Longrightarrow> truthy (ttl (options s)) \<Longrightarrow>
   cache (settle q (Resolves res) now s) = cache (setCacheEntry (pkey (promises s ! q)) res now s)
   \<and> accessOrder (settle q (Resolves res) now s) = accessOrder (setCacheEntry (pkey (promises s ! q)) res now s)"
  by (simp add: settle_def setCacheEntry_def Let_def cong: option.case_cong)

lemma step_inv:
  assumes inv: "cache_inv s" and heap: "\<forall>x \<in> set (promises s). pkey x \<noteq> NaN"
    and ev: "\<forall>r t. ev \<noteq> Execute NaN r t"
  shows "cache_inv (step ev s) \<and> (\<forall>x \<in> set (promises (step ev s)). pkey x \<noteq> NaN)"
proof (cases ev)
  case (Execute key request now)
  with ev have key: "key \<noteq> NaN" by auto
  show ?thesis
  proof (cases "isCached key now s")
    case True
    then obtain entry where e: "map_of (cache s) key = Some entry" "isCacheValid (options s) now entry"
      by (auto simp: isCached_def split: option.splits)
    from e(1) have "key \<in> fst ` set (cache s)" by (metis map_of_eq_None_iff option.distinct(1))
    from cache_inv_touch [OF inv this] Execute heap e show ?thesis by (simp add: execute_hit)
  next
    case False
    have "cache_inv (snd (execute_uncached key request s)) = cache_inv s"
      by (rule cache_inv_frame) simp_all
    with inv have "cache_inv (snd (execute_uncached key request s))" by simp
    moreover have "\<forall>x \<in> set (promises (snd (execute_uncached key request s))). pkey x \<noteq> NaN"
      using heap key
      by (auto simp: execute_uncached_def Let_def split: option.splits thunk.splits)
    ultimately show ?thesis using Execute False by (simp add: execute_miss)
  qed
next
  case (Settle q outcome now)
  show ?thesis
  proof (cases "in_flight (promises s) q")
    case True
    then have lt: "q < length (promises s)" by (rule in_flight_less)
    with heap have key: "pkey (promises s ! q) \<noteq> NaN" by simp
    have "cache_inv (settle q outcome now s)"
    proof (cases "\<exists>res. outcome = Resolves res \<and> truthy (ttl (options s))")
      case True
      then obtain res where out: "outcome = Resolves res" and tr: "truthy (ttl (options s))" by blast
      note fr = settle_resolves_frame [OF \<open>in_flight (promises s) q\<close> tr, of res now]
      have "cache_inv (settle q (Resolves res) now s)
          = cache_inv (setCacheEntry (pkey (promises s ! q)) res now s)"
        by (rule cache_inv_frame) (simp_all add: fr)
      with setCacheEntry_inv [OF inv key, of res now] out show ?thesis by simp
    next
      case False
      have "cache (settle q outcome now s) = cache s \<and> accessOrder (settle q outcome now s) = accessOrder s"
        using False by (cases outcome) (simp_all add: settle_no_ttl_cache)
      then have "cache_inv (settle q outcome now s) = cache_inv s"
        by (intro cache_inv_frame) simp_all
      with inv show ?thesis by simp
    qed
    moreover have "\<forall>x \<in> set (promises (settle q outcome now s)). pkey x \<noteq> NaN"
      using heap key True by (auto simp: settle_promises dest: set_update_subset_insert [THEN subsetD])
    ultimately show ?thesis using Settle by simp
  next
    case False
    with Settle inv heap show ?thesis by (simp add: settle_idle)
  qed
next
  case (Invalidate key)
  with cache_inv_invalidate [OF inv, of key] heap show ?thesis
    by (simp add: invalidate_def Let_def)
next
  case Clear
  have "cache_inv (clear s)" by (rule cache_invI) (simp_all add: clear_def)
  with Clear heap show ?thesis by (simp add: clear_def)
qed

lemma run_inv:
  "cache_inv s \<Longrightarrow> \<forall>x \<in> set (promises s). pkey x \<noteq> NaN \<Longrightarrow> \<forall>r t. Execute NaN r t \<notin> set evs \<Longrightarrow>
   cache_inv (run evs s)"
proof (induction evs arbitrary: s)
  case Nil
  then show ?case by simp
next
  case (Cons ev evs)
  from Cons.prems(3) have one: "\<forall>r t. ev \<noteq> Execute NaN r t" and rest: "\<forall>r t. Execute NaN r t \<notin> set evs"
    by auto
  from step_inv [OF Cons.prems(1,2) one] Cons.IH rest show ?case by simp
qed

lemma length_delete:
  assumes "distinct (map fst al)" and "k \<in> fst ` set al"
  shows "Suc (length (AList.delete k al)) = length al"
proof -
  have "length (AList.delete k al) = length (map fst (AList.delete k al))" by simp
  also have "\<dots> = length (removeAll k (map fst al))" by (simp only: delete_keys)
  also have "\<dots> = length (remove1 k (map fst al))"
    using assms(1) by (simp add: distinct_remove1_removeAll)
  also have "\<dots> = length (map fst al) - 1"
    using assms(2) by (simp add: length_remove1)
  finally show ?thesis using assms(2) by (cases al) auto
qed

lemma setCacheEntry_evicts:
  assumes inv: "cache_inv s" and M: "maxSize (options s) = Some M" "M \<noteq> 0" "M \<le> int (length (cache s))"
    and ord: "accessOrder s = lru # rest" and lru: "lru \<noteq> Undefined"
    and new: "key \<notin> fst ` set (cache s)" and nan: "key \<noteq> NaN"
  shows "cache (setCacheEntry key res now s)
       = AList.delete lru (cache s) @ [(key, \<lparr>result = res, timestamp = now\<rparr>)]"
    and "accessOrder (setCacheEntry key res now s) = rest @ [key]"
proof -
  note d = cache_invD [OF inv]
  from new have new': "key \<notin> fst ` set (AList.delete lru (cache s))" by (simp add: delete_key_set)
  from new d(3) ord have "key \<notin> set rest" by auto
  then have mv: "updateAccessOrder key rest = rest @ [key]"
    using nan by (simp add: updateAccessOrder_eq remove1_idem)
  show "cache (setCacheEntry key res now s)
       = AList.delete lru (cache s) @ [(key, \<lparr>result = res, timestamp = now\<rparr>)]"
    using M ord lru by (simp add: setCacheEntry_def Let_def update_new [OF new'])
  show "accessOrder (setCacheEntry key res now s) = rest @ [key]"
    using M ord lru by (simp add: setCacheEntry_def Let_def mv)
qed

lemma setCacheEntry_admits:
  assumes inv: "cache_inv s"
    and room: "\<not> (truthy (maxSize (options s)) \<and>
      (case maxSize (options s) of None \<Rightarrow> False | Some m \<Rightarrow> int (length (cache s)) \<ge> m))"
    and new: "key \<notin> fst ` set (cache s)" and nan: "key \<noteq> NaN"
  shows "cache (setCacheEntry key res now s) = cache s @ [(key, \<lparr>result = res, timestamp = now\<rparr>)]"
    and "accessOrder (setCacheEntry key res now s) = accessOrder s @ [key]"
proof -
  note d = cache_invD [OF inv]
  from new d(3) have "key \<notin> set (accessOrder s)" by auto
  then have mv: "updateAccessOrder key (accessOrder s) = accessOrder s @ [key]"
    using nan by (simp add: updateAccessOrder_eq remove1_idem)
  show "cache (setCacheEntry key res now s) = cache s @ [(key, \<lparr>result = res, timestamp = now\<rparr>)]"
    using room by (auto simp: setCacheEntry_def Let_def update_new [OF new])
  show "accessOrder (setCacheEntry key res now s) = accessOrder s @ [key]"
    using room by (auto simp: setCacheEntry_def Let_def mv)
qed

text \<open>A cache write for another key keeps the entry of every key but the evicted one.\<close>

lemma setCacheEntry_keeps:
  assumes "key \<noteq> k" and "accessOrder s = [] \<or> hd (accessOrder s) \<noteq> k"
  shows "map_of (cache (setCacheEntry key res now s)) k = map_of (cache s) k"
  using assms
  by (cases "accessOrder s") (auto simp: setCacheEntry_def Let_def update_conv' delete_conv')

text \<open>
  C7, as amended. With \<^verbatim>\<open>maxSize\<close> \<open>M > 0\<close> and the cache holding \<open>M\<close> entries, the
  success of a request for a key that is not in the cache (and is not \<^verbatim>\<open>NaN\<close>) evicts
  exactly the key at the front of the access order (when that key is not \<^verbatim>\<open>undefined\<close>),
  keeps every other entry, and appends the new entry and key; below capacity it evicts
  nothing. A read hit moves its key to the end of the access order; when the cache holds
  another entry, the key is then not at the front, and the next admission of a new key
  keeps its entry.
\<close>

theorem lru_eviction:
  "(let key = pkey (promises s ! p); lru = hd (accessOrder s); s' = settle p (Resolves res) now s in
      cache_inv s \<and> in_flight (promises s) p \<and> truthy (ttl (options s))
        \<and> maxSize (options s) = Some M \<and> 0 < M \<and> int (length (cache s)) = M
        \<and> key \<notin> fst ` set (cache s) \<and> key \<noteq> NaN \<and> lru \<noteq> Undefined \<longrightarrow>
      cache s' = AList.delete lru (cache s) @ [(key, \<lparr>result = res, timestamp = now\<rparr>)]
      \<and> accessOrder s' = tl (accessOrder s) @ [key]
      \<and> lru \<in> fst ` set (cache s)
      \<and> map_of (cache s') lru = None
      \<and> (\<forall>k'. k' \<noteq> lru \<and> k' \<noteq> key \<longrightarrow> map_of (cache s') k' = map_of (cache s) k')
      \<and> length (cache s') = length (cache s)
      \<and> cache_inv s')
   \<and> (let key = pkey (promises s0 ! p); s' = settle p (Resolves res) now s0 in
      cache_inv s0 \<and> in_flight (promises s0) p \<and> truthy (ttl (options s0))
        \<and> maxSize (options s0) = Some M \<and> int (length (cache s0)) < M
        \<and> key \<notin> fst ` set (cache s0) \<and> key \<noteq> NaN \<longrightarrow>
      cache s' = cache s0 @ [(key, \<lparr>result = res, timestamp = now\<rparr>)]
      \<and> accessOrder s' = accessOrder s0 @ [key])
   \<and> (let s1 = snd (execute k request t s2); key = pkey (promises s1 ! q);
           s' = settle q (Resolves res) now s1 in
      cache_inv s2 \<and> map_of (cache s2) k = Some entry \<and> isCacheValid (options s2) t entry
        \<and> 2 \<le> length (cache s2) \<longrightarrow>
      fst (execute k request t s2) = Value (result entry)
      \<and> accessOrder s1 = remove1 k (accessOrder s2) @ [k]
      \<and> hd (accessOrder s1) \<noteq> k
      \<and> cache s1 = cache s2
      \<and> cache_inv s1
      \<and> (in_flight (promises s1) q \<and> key \<noteq> k \<longrightarrow> map_of (cache s') k = Some entry))"
proof (intro conjI)
  let ?key = "pkey (promises s ! p)"
  let ?lru = "hd (accessOrder s)"
  let ?s' = "settle p (Resolves res) now s"
  have main: "cache ?s' = AList.delete ?lru (cache s) @ [(?key, \<lparr>result = res, timestamp = now\<rparr>)]
      \<and> accessOrder ?s' = tl (accessOrder s) @ [?key]
      \<and> ?lru \<in> fst ` set (cache s)
      \<and> map_of (cache ?s') ?lru = None
      \<and> (\<forall>k'. k' \<noteq> ?lru \<and> k' \<noteq> ?key \<longrightarrow> map_of (cache ?s') k' = map_of (cache s) k')
      \<and> length (cache ?s') = length (cache s)
      \<and> cache_inv ?s'"
    if inv: "cache_inv s" and fl: "in_flight (promises s) p" and tr: "truthy (ttl (options s))"
      and M: "maxSize (options s) = Some M" "0 < M" "int (length (cache s)) = M"
      and new: "?key \<notin> fst ` set (cache s)" and nan: "?key \<noteq> NaN" and und: "?lru \<noteq> Undefined"
  proof -
    note d = cache_invD [OF inv]
    from M have "cache s \<noteq> []" by auto
    with d(3) have "accessOrder s \<noteq> []" by auto
    then have ord: "accessOrder s = ?lru # tl (accessOrder s)" by simp
    from M have M': "M \<noteq> 0" "M \<le> int (length (cache s))" by simp_all
    note fr = settle_resolves_frame [OF fl tr, of res now]
    note ev = setCacheEntry_evicts [OF inv M(1) M' ord und new nan, of res now]
    have a: "cache ?s' = AList.delete ?lru (cache s) @ [(?key, \<lparr>result = res, timestamp = now\<rparr>)]"
      using fr ev(1) by simp
    have b: "accessOrder ?s' = tl (accessOrder s) @ [?key]"
      using fr ev(2) by simp
    have c: "?lru \<in> fst ` set (cache s)"
      using d(3) ord by (metis list.set_intros(1))
    from c new have ne: "?lru \<noteq> ?key" by metis
    have e: "map_of (cache ?s') ?lru = None"
      unfolding a using ne by (simp add: delete_conv')
    have f: "\<forall>k'. k' \<noteq> ?lru \<and> k' \<noteq> ?key \<longrightarrow> map_of (cache ?s') k' = map_of (cache s) k'"
      unfolding a by (auto simp: delete_conv' map_add_def split: option.splits)
    have g: "length (cache ?s') = length (cache s)"
      unfolding a using length_delete [OF d(1) c] by simp
    have "cache_inv ?s' = cache_inv (setCacheEntry ?key res now s)"
      by (rule cache_inv_frame) (simp_all add: fr)
    with setCacheEntry_inv [OF inv nan, of res now] have h: "cache_inv ?s'" by simp
    from a b c e f g h show ?thesis by blast
  qed
  show "let key = pkey (promises s ! p); lru = hd (accessOrder s); s' = settle p (Resolves res) now s in
      cache_inv s \<and> in_flight (promises s) p \<and> truthy (ttl (options s))
        \<and> maxSize (options s) = Some M \<and> 0 < M \<and> int (length (cache s)) = M
        \<and> key \<notin> fst ` set (cache s) \<and> key \<noteq> NaN \<and> lru \<noteq> Undefined \<longrightarrow>
      cache s' = AList.delete lru (cache s) @ [(key, \<lparr>result = res, timestamp = now\<rparr>)]
      \<and> accessOrder s' = tl (accessOrder s) @ [key]
      \<and> lru \<in> fst ` set (cache s)
      \<and> map_of (cache s') lru = None
      \<and> (\<forall>k'. k' \<noteq> lru \<and> k' \<noteq> key \<longrightarrow> map_of (cache s') k' = map_of (cache s) k')
      \<and> length (cache s') = length (cache s)
      \<and> cache_inv s'"
    unfolding Let_def by (intro impI, elim conjE, rule main)
next
  let ?key = "pkey (promises s0 ! p)"
  let ?s' = "settle p (Resolves res) now s0"
  have main: "cache ?s' = cache s0 @ [(?key, \<lparr>result = res, timestamp = now\<rparr>)]
      \<and> accessOrder ?s' = accessOrder s0 @ [?key]"
    if inv: "cache_inv s0" and fl: "in_flight (promises s0) p" and tr: "truthy (ttl (options s0))"
      and M: "maxSize (options s0) = Some M" "int (length (cache s0)) < M"
      and new: "?key \<notin> fst ` set (cache s0)" and nan: "?key \<noteq> NaN"
  proof -
    from M have room: "\<not> (truthy (maxSize (options s0)) \<and>
      (case maxSize (options s0) of None \<Rightarrow> False | Some m \<Rightarrow> int (length (cache s0)) \<ge> m))"
      by simp
    note fr = settle_resolves_frame [OF fl tr, of res now]
    from fr setCacheEntry_admits [OF inv room new nan, of res now] show ?thesis by simp
  qed
  show "let key = pkey (promises s0 ! p); s' = settle p (Resolves res) now s0 in
      cache_inv s0 \<and> in_flight (promises s0) p \<and> truthy (ttl (options s0))
        \<and> maxSize (options s0) = Some M \<and> int (length (cache s0)) < M
        \<and> key \<notin> fst ` set (cache s0) \<and> key \<noteq> NaN \<longrightarrow>
      cache s' = cache s0 @ [(key, \<lparr>result = res, timestamp = now\<rparr>)]
      \<and> accessOrder s' = accessOrder s0 @ [key]"
    unfolding Let_def by (intro impI, elim conjE, rule main)
next
  let ?s1 = "snd (execute k request t s2)"
  let ?key = "pkey (promises ?s1 ! q)"
  let ?s' = "settle q (Resolves res) now ?s1"
  have main: "fst (execute k request t s2) = Value (result entry)
      \<and> accessOrder ?s1 = remove1 k (accessOrder s2) @ [k]
      \<and> hd (accessOrder ?s1) \<noteq> k
      \<and> cache ?s1 = cache s2
      \<and> cache_inv ?s1
      \<and> (in_flight (promises ?s1) q \<and> ?key \<noteq> k \<longrightarrow> map_of (cache ?s') k = Some entry)"
    if inv: "cache_inv s2" and entry: "map_of (cache s2) k = Some entry"
      and valid: "isCacheValid (options s2) t entry" and two: "2 \<le> length (cache s2)"
  proof -
    note d = cache_invD [OF inv]
    note hit = execute_hit [OF entry valid, of request]
    from entry have mem: "k \<in> fst ` set (cache s2)" by (metis map_of_eq_None_iff option.distinct(1))
    with d(3) have kin: "k \<in> set (accessOrder s2)" by simp
    with d(4) have nan: "k \<noteq> NaN" by auto
    have a: "fst (execute k request t s2) = Value (result entry)" by (simp add: hit)
    have b: "accessOrder ?s1 = remove1 k (accessOrder s2) @ [k]"
      using nan by (simp add: hit updateAccessOrder_eq)
    have "length (accessOrder s2) = length (cache s2)"
    proof -
      have "length (accessOrder s2) = card (set (accessOrder s2))"
        using d(2) by (simp add: distinct_card)
      also have "\<dots> = card (set (map fst (cache s2)))" using d(3) by simp
      also have "\<dots> = length (map fst (cache s2))" using d(1) by (rule distinct_card)
      finally show ?thesis by simp
    qed
    with two have "2 \<le> length (accessOrder s2)" by simp
    then have "remove1 k (accessOrder s2) \<noteq> []"
      using kin by (cases "accessOrder s2") (auto simp: length_remove1 split: if_splits)
    then have "hd (accessOrder ?s1) \<in> set (remove1 k (accessOrder s2))"
      unfolding b by simp
    with d(2) have c: "hd (accessOrder ?s1) \<noteq> k" by auto
    have e: "cache ?s1 = cache s2" by simp
    have f: "cache_inv ?s1" using cache_inv_touch [OF inv mem] by (simp add: hit)
    have g: "map_of (cache ?s') k = Some entry" if fl: "in_flight (promises ?s1) q" and ne: "?key \<noteq> k"
    proof (cases "truthy (ttl (options ?s1))")
      case True
      note fr = settle_resolves_frame [OF fl True, of res now]
      from c have "accessOrder ?s1 = [] \<or> hd (accessOrder ?s1) \<noteq> k" by simp
      from setCacheEntry_keeps [OF ne this, of res now] fr entry show ?thesis by simp
    next
      case False
      with entry show ?thesis by (simp add: settle_no_ttl_cache)
    qed
    from a b c e f g show ?thesis by blast
  qed
  show "let s1 = snd (execute k request t s2); key = pkey (promises s1 ! q);
           s' = settle q (Resolves res) now s1 in
      cache_inv s2 \<and> map_of (cache s2) k = Some entry \<and> isCacheValid (options s2) t entry
        \<and> 2 \<le> length (cache s2) \<longrightarrow>
      fst (execute k request t s2) = Value (result entry)
      \<and> accessOrder s1 = remove1 k (accessOrder s2) @ [k]
      \<and> hd (accessOrder s1) \<noteq> k
      \<and> cache s1 = cache s2
      \<and> cache_inv s1
      \<and> (in_flight (promises s1) q \<and> key \<noteq> k \<longrightarrow> map_of (cache s') k = Some entry)"
    unfolding Let_def by (intro impI, elim conjE, rule main)
qed

text \<open>
  C7 as stated fails for \<^verbatim>\<open>maxSize\<close> 1: the entry just read is the only one, so it is the
  one that the next admission evicts.
\<close>

theorem single_entry_not_protected:
  "replies [Execute (Val ''k1'') (Thunk ''f1'') 0, Settle 0 (Resolves ''v1'') 1,
            Execute (Val ''k1'') (Thunk ''f1'') 2, Execute (Val ''k2'') (Thunk ''f2'') 3,
            Settle 1 (Resolves ''v2'') 4]
      (new_coalescer \<lparr>ttl = Some 1000, maxSize = Some 1\<rparr> :: (string, string, string, string) CachedRequestCoalescer)
     = [(Val ''k1'', Promise 0), (Val ''k1'', Value ''v1''), (Val ''k2'', Promise 1)]
   \<and> cache (run [Execute (Val ''k1'') (Thunk ''f1'') 0, Settle 0 (Resolves ''v1'') 1,
            Execute (Val ''k1'') (Thunk ''f1'') 2, Execute (Val ''k2'') (Thunk ''f2'') 3,
            Settle 1 (Resolves ''v2'') 4]
      (new_coalescer \<lparr>ttl = Some 1000, maxSize = Some 1\<rparr> :: (string, string, string, string) CachedRequestCoalescer))
     = [(Val ''k2'', \<lparr>result = ''v2'', timestamp = 4\<rparr>)]
   \<and> \<not> isCached (Val ''k1'') 5 (run [Execute (Val ''k1'') (Thunk ''f1'') 0, Settle 0 (Resolves ''v1'') 1,
            Execute (Val ''k1'') (Thunk ''f1'') 2, Execute (Val ''k2'') (Thunk ''f2'') 3,
            Settle 1 (Resolves ''v2'') 4]
      (new_coalescer \<lparr>ttl = Some 1000, maxSize = Some 1\<rparr> :: (string, string, string, string) CachedRequestCoalescer))"
  by (simp add: coalescer_eval)

theorem lru_eviction_witness:
  "cache_inv (run [Execute (Val ''k1'') (Thunk ''f1'') 0, Settle 0 (Resolves ''v1'') 1,
        Execute (Val ''k2'') (Thunk ''f2'') 2, Settle 1 (Resolves ''v2'') 3,
        Execute (Val ''k3'') (Thunk ''f3'') 4, Execute (Val ''k1'') (Thunk ''f1'') 5]
      (new_coalescer \<lparr>ttl = Some 1000, maxSize = Some 2\<rparr> :: (string, string, string, string) CachedRequestCoalescer))
   \<and> accessOrder (run [Execute (Val ''k1'') (Thunk ''f1'') 0, Settle 0 (Resolves ''v1'') 1,
        Execute (Val ''k2'') (Thunk ''f2'') 2, Settle 1 (Resolves ''v2'') 3,
        Execute (Val ''k3'') (Thunk ''f3'') 4, Execute (Val ''k1'') (Thunk ''f1'') 5]
      (new_coalescer \<lparr>ttl = Some 1000, maxSize = Some 2\<rparr> :: (string, string, string, string) CachedRequestCoalescer))
     = [Val ''k2'', Val ''k1'']
   \<and> int (length (cache (run [Execute (Val ''k1'') (Thunk ''f1'') 0, Settle 0 (Resolves ''v1'') 1,
        Execute (Val ''k2'') (Thunk ''f2'') 2, Settle 1 (Resolves ''v2'') 3,
        Execute (Val ''k3'') (Thunk ''f3'') 4, Execute (Val ''k1'') (Thunk ''f1'') 5]
      (new_coalescer \<lparr>ttl = Some 1000, maxSize = Some 2\<rparr> :: (string, string, string, string) CachedRequestCoalescer)))) = 2
   \<and> in_flight (promises (run [Execute (Val ''k1'') (Thunk ''f1'') 0, Settle 0 (Resolves ''v1'') 1,
        Execute (Val ''k2'') (Thunk ''f2'') 2, Settle 1 (Resolves ''v2'') 3,
        Execute (Val ''k3'') (Thunk ''f3'') 4, Execute (Val ''k1'') (Thunk ''f1'') 5]
      (new_coalescer \<lparr>ttl = Some 1000, maxSize = Some 2\<rparr> :: (string, string, string, string) CachedRequestCoalescer))) 2
   \<and> cache (run [Execute (Val ''k1'') (Thunk ''f1'') 0, Settle 0 (Resolves ''v1'') 1,
        Execute (Val ''k2'') (Thunk ''f2'') 2, Settle 1 (Resolves ''v2'') 3,
        Execute (Val ''k3'') (Thunk ''f3'') 4, Execute (Val ''k1'') (Thunk ''f1'') 5,
        Settle 2 (Resolves ''v3'') 6]
      (new_coalescer \<lparr>ttl = Some 1000, maxSize = Some 2\<rparr> :: (string, string, string, string) CachedRequestCoalescer))
     = [(Val ''k1'', \<lparr>result = ''v1'', timestamp = 1\<rparr>), (Val ''k3'', \<lparr>result = ''v3'', timestamp = 6\<rparr>)]
   \<and> accessOrder (run [Execute (Val ''k1'') (Thunk ''f1'') 0, Settle 0 (Resolves ''v1'') 1,
        Execute (Val ''k2'') (Thunk ''f2'') 2, Settle 1 (Resolves ''v2'') 3,
        Execute (Val ''k3'') (Thunk ''f3'') 4, Execute (Val ''k1'') (Thunk ''f1'') 5,
        Settle 2 (Resolves ''v3'') 6]
      (new_coalescer \<lparr>ttl = Some 1000, maxSize = Some 2\<rparr> :: (string, string, string, string) CachedRequestCoalescer))
     = [Val ''k1'', Val ''k3'']
   \<and> cache_inv (run [Execute (Val ''k1'') (Thunk ''f1'') 0, Execute (Val ''k2'') (Thunk ''f2'') 1,
        Execute (Val ''k3'') (Thunk ''f3'') 2]
      (new_coalescer \<lparr>ttl = Some 1000, maxSize = Some 2\<rparr> :: (string, string, string, string) CachedRequestCoalescer))
   \<and> cache (run [Execute (Val ''k1'') (Thunk ''f1'') 0, Execute (Val ''k2'') (Thunk ''f2'') 1,
        Execute (Val ''k3'') (Thunk ''f3'') 2, Settle 2 (Resolves ''v3'') 6]
      (new_coalescer \<lparr>ttl = Some 1000, maxSize = Some 2\<rparr> :: (string, string, string, string) CachedRequestCoalescer))
     = [(Val ''k3'', \<lparr>result = ''v3'', timestamp = 6\<rparr>)]
   \<and> cache_inv (run [Execute (Val ''k1'') (Thunk ''f1'') 0, Settle 0 (Resolves ''v1'') 1,
        Execute (Val ''k2'') (Thunk ''f2'') 2, Settle 1 (Resolves ''v2'') 3,
        Execute (Val ''k3'') (Thunk ''f3'') 4]
      (new_coalescer \<lparr>ttl = Some 1000, maxSize = Some 2\<rparr> :: (string, string, string, string) CachedRequestCoalescer))
   \<and> isCacheValid \<lparr>ttl = Some 1000, maxSize = Some 2\<rparr> 5 \<lparr>result = ''v1'', timestamp = 1\<rparr>
   \<and> map_of (cache (run [Execute (Val ''k1'') (Thunk ''f1'') 0, Settle 0 (Resolves ''v1'') 1,
        Execute (Val ''k2'') (Thunk ''f2'') 2, Settle 1 (Resolves ''v2'') 3,
        Execute (Val ''k3'') (Thunk ''f3'') 4, Execute (Val ''k1'') (Thunk ''f1'') 5,
        Settle 2 (Resolves ''v3'') 6]
      (new_coalescer \<lparr>ttl = Some 1000, maxSize = Some 2\<rparr> :: (string, string, string, string) CachedRequestCoalescer)))
      (Val ''k1'') = Some \<lparr>result = ''v1'', timestamp = 1\<rparr>"
proof -
  let ?new = "new_coalescer \<lparr>ttl = Some 1000, maxSize = Some 2\<rparr> :: (string, string, string, string) CachedRequestCoalescer"
  let ?k1 = "Val ''k1'' :: string js"
  let ?S2 = "run [Execute ?k1 (Thunk ''f1'') 0, Settle 0 (Resolves ''v1'') 1,
        Execute (Val ''k2'') (Thunk ''f2'') 2, Settle 1 (Resolves ''v2'') 3,
        Execute (Val ''k3'') (Thunk ''f3'') 4] ?new"
  let ?S1 = "run [Execute ?k1 (Thunk ''f1'') 0, Settle 0 (Resolves ''v1'') 1,
        Execute (Val ''k2'') (Thunk ''f2'') 2, Settle 1 (Resolves ''v2'') 3,
        Execute (Val ''k3'') (Thunk ''f3'') 4, Execute ?k1 (Thunk ''f1'') 5] ?new"
  let ?S0 = "run [Execute ?k1 (Thunk ''f1'') 0, Execute (Val ''k2'') (Thunk ''f2'') 1,
        Execute (Val ''k3'') (Thunk ''f3'') 2] ?new"
  let ?e1 = "\<lparr>result = ''v1'', timestamp = 1\<rparr> :: string CacheEntry"
  let ?e2 = "\<lparr>result = ''v2'', timestamp = 3\<rparr> :: string CacheEntry"
  let ?e3 = "\<lparr>result = ''v3'', timestamp = 6\<rparr> :: string CacheEntry"
  have S2: "?S2 = \<lparr>options = \<lparr>ttl = Some 1000, maxSize = Some 2\<rparr>,
       cache = [(?k1, ?e1), (Val ''k2'', ?e2)], pendingRequests = [(Val ''k3'', 2)],
       accessOrder = [?k1, Val ''k2''],
       promises = [\<lparr>pkey = ?k1, pstate = Fulfilled ''v1''\<rparr>, \<lparr>pkey = Val ''k2'', pstate = Fulfilled ''v2''\<rparr>,
                   \<lparr>pkey = Val ''k3'', pstate = Pending\<rparr>],
       invoked = [(?k1, Thunk ''f1''), (Val ''k2'', Thunk ''f2''), (Val ''k3'', Thunk ''f3'')]\<rparr>"
    by (simp add: coalescer_eval)
  have S1: "?S1 = \<lparr>options = \<lparr>ttl = Some 1000, maxSize = Some 2\<rparr>,
       cache = [(?k1, ?e1), (Val ''k2'', ?e2)], pendingRequests = [(Val ''k3'', 2)],
       accessOrder = [Val ''k2'', ?k1],
       promises = [\<lparr>pkey = ?k1, pstate = Fulfilled ''v1''\<rparr>, \<lparr>pkey = Val ''k2'', pstate = Fulfilled ''v2''\<rparr>,
                   \<lparr>pkey = Val ''k3'', pstate = Pending\<rparr>],
       invoked = [(?k1, Thunk ''f1''), (Val ''k2'', Thunk ''f2''), (Val ''k3'', Thunk ''f3'')]\<rparr>"
    by (simp add: coalescer_eval)
  have S0: "?S0 = \<lparr>options = \<lparr>ttl = Some 1000, maxSize = Some 2\<rparr>,
       cache = [], pendingRequests = [(?k1, 0), (Val ''k2'', 1), (Val ''k3'', 2)],
       accessOrder = [],
       promises = [\<lparr>pkey = ?k1, pstate = Pending\<rparr>, \<lparr>pkey = Val ''k2'', pstate = Pending\<rparr>,
                   \<lparr>pkey = Val ''k3'', pstate = Pending\<rparr>],
       invoked = [(?k1, Thunk ''f1''), (Val ''k2'', Thunk ''f2''), (Val ''k3'', Thunk ''f3'')]\<rparr>"
    by (simp add: coalescer_eval)
  have S12: "snd (execute ?k1 (Thunk ''f1'') 5 ?S2) = ?S1"
    using run_append [of "[Execute ?k1 (Thunk ''f1'') 0, Settle 0 (Resolves ''v1'') 1,
        Execute (Val ''k2'') (Thunk ''f2'') 2, Settle 1 (Resolves ''v2'') 3,
        Execute (Val ''k3'') (Thunk ''f3'') 4]" "[Execute ?k1 (Thunk ''f1'') 5]" ?new]
    by simp
  have h1: "cache_inv ?S1" "in_flight (promises ?S1) 2" "truthy (ttl (options ?S1))"
    "maxSize (options ?S1) = Some 2" "(0::int) < 2" "int (length (cache ?S1)) = 2"
    "pkey (promises ?S1 ! 2) \<notin> fst ` set (cache ?S1)" "pkey (promises ?S1 ! 2) \<noteq> NaN"
    "hd (accessOrder ?S1) \<noteq> Undefined"
    unfolding S1 by (auto simp: cache_inv_def in_flight_def)
  have h0: "cache_inv ?S0" "in_flight (promises ?S0) 2" "truthy (ttl (options ?S0))"
    "maxSize (options ?S0) = Some 2" "int (length (cache ?S0)) < 2"
    "pkey (promises ?S0 ! 2) \<notin> fst ` set (cache ?S0)" "pkey (promises ?S0 ! 2) \<noteq> NaN"
    unfolding S0 by (simp_all add: cache_inv_def in_flight_def)
  have h2: "cache_inv ?S2" "map_of (cache ?S2) ?k1 = Some ?e1" "isCacheValid (options ?S2) 5 ?e1"
    "2 \<le> length (cache ?S2)"
    unfolding S2 by (simp_all add: cache_inv_def isCacheValid_def)
  have h2': "isCacheValid \<lparr>ttl = Some 1000, maxSize = Some 2\<rparr> 5 ?e1"
    by (simp add: isCacheValid_def)
  have ao: "accessOrder ?S1 = [Val ''k2'', ?k1]" unfolding S1 by simp
  have key: "pkey (promises ?S1 ! 2) = Val ''k3''" "pkey (promises ?S0 ! 2) = Val ''k3''"
    unfolding S1 S0 by simp_all
  note inst = lru_eviction
    [where s = "?S1" and p = 2 and res = "''v3''" and now = 6 and M = 2 and ?s0.0 = "?S0"
       and ?s2.0 = "?S2" and k = "?k1" and request = "Thunk ''f1''" and t = 5 and q = 2 and entry = "?e1",
     unfolded Let_def S12]
  note A = inst [THEN conjunct1, THEN mp,
      OF conjI [OF h1(1) conjI [OF h1(2) conjI [OF h1(3) conjI [OF h1(4) conjI [OF h1(5)
         conjI [OF h1(6) conjI [OF h1(7) conjI [OF h1(8) h1(9)]]]]]]]]]
  note B = inst [THEN conjunct2, THEN conjunct1, THEN mp,
      OF conjI [OF h0(1) conjI [OF h0(2) conjI [OF h0(3) conjI [OF h0(4) conjI [OF h0(5)
         conjI [OF h0(6) h0(7)]]]]]]]
  note C = inst [THEN conjunct2, THEN conjunct2, THEN mp,
      OF conjI [OF h2(1) conjI [OF h2(2) conjI [OF h2(3) h2(4)]]]]
  have fin: "run [Execute ?k1 (Thunk ''f1'') 0, Settle 0 (Resolves ''v1'') 1,
        Execute (Val ''k2'') (Thunk ''f2'') 2, Settle 1 (Resolves ''v2'') 3,
        Execute (Val ''k3'') (Thunk ''f3'') 4, Execute ?k1 (Thunk ''f1'') 5,
        Settle 2 (Resolves ''v3'') 6] ?new = settle 2 (Resolves ''v3'') 6 ?S1"
    using run_append [of "[Execute ?k1 (Thunk ''f1'') 0, Settle 0 (Resolves ''v1'') 1,
        Execute (Val ''k2'') (Thunk ''f2'') 2, Settle 1 (Resolves ''v2'') 3,
        Execute (Val ''k3'') (Thunk ''f3'') 4, Execute ?k1 (Thunk ''f1'') 5]" "[Settle 2 (Resolves ''v3'') 6]" ?new]
    by simp
  have fin0: "run [Execute ?k1 (Thunk ''f1'') 0, Execute (Val ''k2'') (Thunk ''f2'') 1,
        Execute (Val ''k3'') (Thunk ''f3'') 2, Settle 2 (Resolves ''v3'') 6] ?new
       = settle 2 (Resolves ''v3'') 6 ?S0"
    using run_append [of "[Execute ?k1 (Thunk ''f1'') 0, Execute (Val ''k2'') (Thunk ''f2'') 1,
        Execute (Val ''k3'') (Thunk ''f3'') 2]" "[Settle 2 (Resolves ''v3'') 6]" ?new]
    by simp
  from A have a1: "cache (settle 2 (Resolves ''v3'') 6 ?S1)
      = AList.delete (hd (accessOrder ?S1)) (cache ?S1) @ [(pkey (promises ?S1 ! 2), ?e3)]"
    by (elim conjE)
  from A have a2: "accessOrder (settle 2 (Resolves ''v3'') 6 ?S1) = tl (accessOrder ?S1) @ [pkey (promises ?S1 ! 2)]"
    by (elim conjE)
  from B have b1: "cache (settle 2 (Resolves ''v3'') 6 ?S0) = cache ?S0 @ [(pkey (promises ?S0 ! 2), ?e3)]"
    by (elim conjE)
  from C h1(2) key(1) have c1: "map_of (cache (settle 2 (Resolves ''v3'') 6 ?S1)) ?k1 = Some ?e1"
    by (elim conjE) simp
  have a1': "cache (settle 2 (Resolves ''v3'') 6 ?S1) = [(?k1, ?e1), (Val ''k3'', ?e3)]"
    unfolding a1 unfolding S1 by (simp add: AList.delete_eq)
  have a2': "accessOrder (settle 2 (Resolves ''v3'') 6 ?S1) = [?k1, Val ''k3'']"
    unfolding a2 unfolding S1 by simp
  have b1': "cache (settle 2 (Resolves ''v3'') 6 ?S0) = [(Val ''k3'', ?e3)]"
    unfolding b1 unfolding S0 by simp
  have len: "int (length (cache ?S1)) = 2" by (rule h1(6))
  show ?thesis
    unfolding fin fin0
    by (intro conjI) (fact h1(1) ao len h1(2) a1' a2' h0(1) b1' h2(1) h2' c1)+
qed

section \<open>The access-order invariant\<close>

text \<open>
  C8. The invariant of the spec (every key of the cache occurs exactly once in the access
  order) is \<open>cache_inv\<close>; by \<open>run_inv\<close> it holds over every run of a new coalescer in
  which no call is made for the key \<^verbatim>\<open>NaN\<close>. For the key \<^verbatim>\<open>NaN\<close> the code breaks it: the
  \<^verbatim>\<open>Map\<close> finds the key, \<^verbatim>\<open>indexOf\<close> does not, so \<^verbatim>\<open>updateAccessOrder\<close> appends the key
  without removing its earlier occurrence. After one cache write and one read hit the
  cache holds the key once and the access order holds it twice.
\<close>

theorem nan_key_listed_twice:
  "replies [Execute NaN (Thunk ''f'') 0, Settle 0 (Resolves ''v'') 1, Execute NaN (Thunk ''f'') 2]
      (new_coalescer \<lparr>ttl = Some 1000, maxSize = None\<rparr> :: (int, string, string, string) CachedRequestCoalescer)
     = [(NaN, Promise 0), (NaN, Value ''v'')]
   \<and> cache (run [Execute NaN (Thunk ''f'') 0, Settle 0 (Resolves ''v'') 1, Execute NaN (Thunk ''f'') 2]
      (new_coalescer \<lparr>ttl = Some 1000, maxSize = None\<rparr> :: (int, string, string, string) CachedRequestCoalescer))
     = [(NaN, \<lparr>result = ''v'', timestamp = 1\<rparr>)]
   \<and> accessOrder (run [Execute NaN (Thunk ''f'') 0, Settle 0 (Resolves ''v'') 1, Execute NaN (Thunk ''f'') 2]
      (new_coalescer \<lparr>ttl = Some 1000, maxSize = None\<rparr> :: (int, string, string, string) CachedRequestCoalescer))
     = [NaN, NaN]
   \<and> count_list (accessOrder (run [Execute NaN (Thunk ''f'') 0, Settle 0 (Resolves ''v'') 1, Execute NaN (Thunk ''f'') 2]
      (new_coalescer \<lparr>ttl = Some 1000, maxSize = None\<rparr> :: (int, string, string, string) CachedRequestCoalescer))) NaN
     = 2
   \<and> \<not> cache_inv (run [Execute NaN (Thunk ''f'') 0, Settle 0 (Resolves ''v'') 1, Execute NaN (Thunk ''f'') 2]
      (new_coalescer \<lparr>ttl = Some 1000, maxSize = None\<rparr> :: (int, string, string, string) CachedRequestCoalescer))"
  by (simp add: coalescer_eval cache_inv_def)

section \<open>Settlement after the key was cleared\<close>

text \<open>
  C10, as amended. The callbacks of a promise delete the pending entry of its key whatever
  promise that entry holds. So when the key is cleared (\<^verbatim>\<open>clear(k)\<close>, \<^verbatim>\<open>invalidate(k)\<close>)
  while a first request is in flight and a second call registers a new promise, the
  settlement of the first request removes the entry of the second: nothing is pending for
  the key although the second request is in flight, and a further call does not attach to
  it. On \<^verbatim>\<open>RequestCoalescer\<close> the further call starts a third request. On
  \<^verbatim>\<open>CachedRequestCoalescer\<close> the key is cached afterwards exactly when the first request
  resolved, \<^verbatim>\<open>ttl\<close> is configured and less than \<^verbatim>\<open>ttl\<close> has passed since the settlement: a
  further call at such a time is answered with the result of the first request and calls
  no thunk, at any other time it starts a third request.
\<close>

theorem stale_settlement_unregisters:
  "(in_flight (rc_promises rc) p \<and> map_of (rc_pendingRequests rc) (pkey (rc_promises rc ! p)) = Some p' \<longrightarrow>
      map_of (rc_pendingRequests (rc_settle p outcome rc)) (pkey (rc_promises rc ! p)) = None)
   \<and> (in_flight (promises s) p \<and> map_of (pendingRequests s) (pkey (promises s ! p)) = Some p' \<longrightarrow>
      map_of (pendingRequests (settle p outcome now s)) (pkey (promises s ! p)) = None)
   \<and> (let p1 = length (rc_promises rc0);
           rc1 = snd (rc_execute k (Thunk op1) rc0);
           rc2 = rc_clear k rc1;
           rc3 = snd (rc_execute k (Thunk op2) rc2);
           rc4 = rc_settle p1 outcome rc3 in
       map_of (rc_pendingRequests rc0) k = None \<longrightarrow>
         fst (rc_execute k (Thunk op1) rc0) = Promise p1
         \<and> fst (rc_execute k (Thunk op2) rc2) = Promise (Suc p1)
         \<and> map_of (rc_pendingRequests rc3) k = Some (Suc p1)
         \<and> \<not> rc_isPending k rc4
         \<and> in_flight (rc_promises rc4) (Suc p1)
         \<and> fst (rc_execute k (Thunk op3) rc4) = Promise (Suc (Suc p1))
         \<and> rc_invoked (snd (rc_execute k (Thunk op3) rc4))
             = rc_invoked rc0 @ [(k, Thunk op1), (k, Thunk op2), (k, Thunk op3)])
   \<and> (let p1 = length (promises s0);
           s1 = snd (execute k (Thunk op1) t1 s0);
           s2 = invalidate k s1;
           s3 = snd (execute k (Thunk op2) t2 s2);
           s4 = settle p1 outcome t3 s3 in
       map_of (pendingRequests s0) k = None \<and> \<not> isCached k t1 s0 \<longrightarrow>
         fst (execute k (Thunk op1) t1 s0) = Promise p1
         \<and> fst (execute k (Thunk op2) t2 s2) = Promise (Suc p1)
         \<and> map_of (pendingRequests s3) k = Some (Suc p1)
         \<and> \<not> isPending k s4
         \<and> in_flight (promises s4) (Suc p1)
         \<and> invoked s4 = invoked s0 @ [(k, Thunk op1), (k, Thunk op2)]
         \<and> (\<forall>t. isCached k t s4
                = (\<exists>v T. outcome = Resolves v \<and> ttl (options s0) = Some T \<and> T \<noteq> 0 \<and> t - t3 < T))
         \<and> (\<not> isCached k t4 s4 \<longrightarrow>
               fst (execute k (Thunk op3) t4 s4) = Promise (Suc (Suc p1))
               \<and> invoked (snd (execute k (Thunk op3) t4 s4))
                   = invoked s0 @ [(k, Thunk op1), (k, Thunk op2), (k, Thunk op3)])
         \<and> (\<forall>v. outcome = Resolves v \<and> isCached k early s4 \<longrightarrow>
               fst (execute k (Thunk op3) early s4) = Value v
               \<and> invoked (snd (execute k (Thunk op3) early s4))
                   = invoked s0 @ [(k, Thunk op1), (k, Thunk op2)]))"
proof (intro conjI)
  show "in_flight (rc_promises rc) p \<and> map_of (rc_pendingRequests rc) (pkey (rc_promises rc ! p)) = Some p' \<longrightarrow>
      map_of (rc_pendingRequests (rc_settle p outcome rc)) (pkey (rc_promises rc ! p)) = None"
    by (simp add: rc_settle_in_flight delete_conv')
  show "in_flight (promises s) p \<and> map_of (pendingRequests s) (pkey (promises s ! p)) = Some p' \<longrightarrow>
      map_of (pendingRequests (settle p outcome now s)) (pkey (promises s ! p)) = None"
    by (simp add: settle_pending delete_conv')
next
  let ?p1 = "length (rc_promises rc0)"
  let ?rc1 = "snd (rc_execute k (Thunk op1) rc0)"
  let ?rc2 = "rc_clear k ?rc1"
  let ?rc3 = "snd (rc_execute k (Thunk op2) ?rc2)"
  let ?rc4 = "rc_settle ?p1 outcome ?rc3"
  have main: "fst (rc_execute k (Thunk op1) rc0) = Promise ?p1
         \<and> fst (rc_execute k (Thunk op2) ?rc2) = Promise (Suc ?p1)
         \<and> map_of (rc_pendingRequests ?rc3) k = Some (Suc ?p1)
         \<and> \<not> rc_isPending k ?rc4
         \<and> in_flight (rc_promises ?rc4) (Suc ?p1)
         \<and> fst (rc_execute k (Thunk op3) ?rc4) = Promise (Suc (Suc ?p1))
         \<and> rc_invoked (snd (rc_execute k (Thunk op3) ?rc4))
             = rc_invoked rc0 @ [(k, Thunk op1), (k, Thunk op2), (k, Thunk op3)]"
    if none: "map_of (rc_pendingRequests rc0) k = None"
  proof -
    note e1 = rc_execute_start [OF none, of op1]
    have none2: "map_of (rc_pendingRequests ?rc2) k = None"
      by (simp add: rc_clear_def delete_conv')
    have heap2: "rc_promises ?rc2 = rc_promises rc0 @ [\<lparr>pkey = k, pstate = Pending\<rparr>]"
      and log2: "rc_invoked ?rc2 = rc_invoked rc0 @ [(k, Thunk op1)]"
      by (simp_all add: rc_clear_def e1)
    note e2 = rc_execute_start [OF none2, of op2]
    have heap3: "rc_promises ?rc3 = rc_promises rc0 @ [\<lparr>pkey = k, pstate = Pending\<rparr>, \<lparr>pkey = k, pstate = Pending\<rparr>]"
      and log3: "rc_invoked ?rc3 = rc_invoked rc0 @ [(k, Thunk op1), (k, Thunk op2)]"
      and reg3: "map_of (rc_pendingRequests ?rc3) k = Some (Suc ?p1)"
      unfolding e2 snd_conv by (simp_all add: heap2 log2 update_conv')
    have fl1: "in_flight (rc_promises ?rc3) ?p1"
      unfolding heap3 by (simp add: in_flight_def nth_append)
    have key1: "pkey (rc_promises ?rc3 ! ?p1) = k"
      unfolding heap3 by (simp add: nth_append)
    note st = rc_settle_in_flight [OF fl1, of outcome, unfolded key1]
    have none4: "map_of (rc_pendingRequests ?rc4) k = None"
      unfolding st by (simp add: delete_conv')
    have heap4: "rc_promises ?rc4 = rc_promises rc0 @ [\<lparr>pkey = k, pstate = settled outcome\<rparr>, \<lparr>pkey = k, pstate = Pending\<rparr>]"
      unfolding st by (simp add: heap3 list_update_append)
    have log4: "rc_invoked ?rc4 = rc_invoked rc0 @ [(k, Thunk op1), (k, Thunk op2)]"
      by (simp add: log3)
    have fl2: "in_flight (rc_promises ?rc4) (Suc ?p1)"
      unfolding heap4 by (simp add: in_flight_def nth_append)
    note e3 = rc_execute_start [OF none4, of op3]
    have a: "fst (rc_execute k (Thunk op1) rc0) = Promise ?p1" by (simp add: e1)
    have b: "fst (rc_execute k (Thunk op2) ?rc2) = Promise (Suc ?p1)"
      unfolding e2 fst_conv heap2 by simp
    have c: "\<not> rc_isPending k ?rc4" using none4 by (simp add: rc_isPending_def)
    have d: "fst (rc_execute k (Thunk op3) ?rc4) = Promise (Suc (Suc ?p1))"
      unfolding e3 fst_conv heap4 by simp
    have e: "rc_invoked (snd (rc_execute k (Thunk op3) ?rc4))
             = rc_invoked rc0 @ [(k, Thunk op1), (k, Thunk op2), (k, Thunk op3)]"
      unfolding e3 snd_conv using log4 by simp
    from a b reg3 c fl2 d e show ?thesis by blast
  qed
  show "let p1 = length (rc_promises rc0);
           rc1 = snd (rc_execute k (Thunk op1) rc0);
           rc2 = rc_clear k rc1;
           rc3 = snd (rc_execute k (Thunk op2) rc2);
           rc4 = rc_settle p1 outcome rc3 in
       map_of (rc_pendingRequests rc0) k = None \<longrightarrow>
         fst (rc_execute k (Thunk op1) rc0) = Promise p1
         \<and> fst (rc_execute k (Thunk op2) rc2) = Promise (Suc p1)
         \<and> map_of (rc_pendingRequests rc3) k = Some (Suc p1)
         \<and> \<not> rc_isPending k rc4
         \<and> in_flight (rc_promises rc4) (Suc p1)
         \<and> fst (rc_execute k (Thunk op3) rc4) = Promise (Suc (Suc p1))
         \<and> rc_invoked (snd (rc_execute k (Thunk op3) rc4))
             = rc_invoked rc0 @ [(k, Thunk op1), (k, Thunk op2), (k, Thunk op3)]"
    unfolding Let_def by (intro impI, rule main)
next
  let ?p1 = "length (promises s0)"
  let ?s1 = "snd (execute k (Thunk op1) t1 s0)"
  let ?s2 = "invalidate k ?s1"
  let ?s3 = "snd (execute k (Thunk op2) t2 ?s2)"
  let ?s4 = "settle ?p1 outcome t3 ?s3"
  have main: "fst (execute k (Thunk op1) t1 s0) = Promise ?p1
         \<and> fst (execute k (Thunk op2) t2 ?s2) = Promise (Suc ?p1)
         \<and> map_of (pendingRequests ?s3) k = Some (Suc ?p1)
         \<and> \<not> isPending k ?s4
         \<and> in_flight (promises ?s4) (Suc ?p1)
         \<and> invoked ?s4 = invoked s0 @ [(k, Thunk op1), (k, Thunk op2)]
         \<and> (\<forall>t. isCached k t ?s4
                = (\<exists>v T. outcome = Resolves v \<and> ttl (options s0) = Some T \<and> T \<noteq> 0 \<and> t - t3 < T))
         \<and> (\<not> isCached k t4 ?s4 \<longrightarrow>
               fst (execute k (Thunk op3) t4 ?s4) = Promise (Suc (Suc ?p1))
               \<and> invoked (snd (execute k (Thunk op3) t4 ?s4))
                   = invoked s0 @ [(k, Thunk op1), (k, Thunk op2), (k, Thunk op3)])
         \<and> (\<forall>v. outcome = Resolves v \<and> isCached k early ?s4 \<longrightarrow>
               fst (execute k (Thunk op3) early ?s4) = Value v
               \<and> invoked (snd (execute k (Thunk op3) early ?s4))
                   = invoked s0 @ [(k, Thunk op1), (k, Thunk op2)])"
    if none: "map_of (pendingRequests s0) k = None" and miss: "\<not> isCached k t1 s0"
  proof -
    note e1 = execute_start [OF miss none, of op1]
    have none2: "map_of (pendingRequests ?s2) k = None"
      by (simp add: invalidate_def Let_def delete_conv')
    have nocache2: "map_of (cache ?s2) k = None"
      by (simp add: invalidate_def Let_def delete_conv')
    then have miss2: "\<not> isCached k t2 ?s2" by (simp add: isCached_def)
    have heap2: "promises ?s2 = promises s0 @ [\<lparr>pkey = k, pstate = Pending\<rparr>]"
      and log2: "invoked ?s2 = invoked s0 @ [(k, Thunk op1)]"
      and opt2: "options ?s2 = options s0"
      by (simp_all add: invalidate_def Let_def e1)
    note e2 = execute_start [OF miss2 none2, of op2]
    have heap3: "promises ?s3 = promises s0 @ [\<lparr>pkey = k, pstate = Pending\<rparr>, \<lparr>pkey = k, pstate = Pending\<rparr>]"
      and log3: "invoked ?s3 = invoked s0 @ [(k, Thunk op1), (k, Thunk op2)]"
      and reg3: "map_of (pendingRequests ?s3) k = Some (Suc ?p1)"
      and opt3: "options ?s3 = options s0"
      and nocache3: "map_of (cache ?s3) k = None"
      unfolding e2 snd_conv by (simp_all add: heap2 log2 opt2 nocache2 update_conv')
    have fl1: "in_flight (promises ?s3) ?p1"
      unfolding heap3 by (simp add: in_flight_def nth_append)
    have key1: "pkey (promises ?s3 ! ?p1) = k"
      unfolding heap3 by (simp add: nth_append)
    have none4: "map_of (pendingRequests ?s4) k = None"
      using settle_pending [OF fl1, of outcome t3] key1 by (simp add: delete_conv')
    have heap4: "promises ?s4 = promises s0 @ [\<lparr>pkey = k, pstate = settled outcome\<rparr>, \<lparr>pkey = k, pstate = Pending\<rparr>]"
      using settle_promises [OF fl1, of outcome t3] key1 by (simp add: heap3 list_update_append)
    have log4: "invoked ?s4 = invoked s0 @ [(k, Thunk op1), (k, Thunk op2)]"
      by (simp add: log3)
    have fl2: "in_flight (promises ?s4) (Suc ?p1)"
      unfolding heap4 by (simp add: in_flight_def nth_append)
    have a: "fst (execute k (Thunk op1) t1 s0) = Promise ?p1" by (simp add: e1)
    have b: "fst (execute k (Thunk op2) t2 ?s2) = Promise (Suc ?p1)"
      unfolding e2 fst_conv heap2 by simp
    have c: "\<not> isPending k ?s4" using none4 by (simp add: isPending_def)
    have d: "fst (execute k (Thunk op3) t4 ?s4) = Promise (Suc (Suc ?p1))
               \<and> invoked (snd (execute k (Thunk op3) t4 ?s4))
                   = invoked s0 @ [(k, Thunk op1), (k, Thunk op2), (k, Thunk op3)]"
      if miss4: "\<not> isCached k t4 ?s4"
      using execute_start [OF miss4 none4, of op3] heap4 log4 by simp
    have opt4: "options ?s4 = options s0" by (simp add: opt2)
    have e: "isCached k t ?s4
                = (\<exists>v T. outcome = Resolves v \<and> ttl (options s0) = Some T \<and> T \<noteq> 0 \<and> t - t3 < T)" for t
    proof (cases "(\<exists>e. outcome = Rejects e) \<or> \<not> truthy (ttl (options s0))")
      case True
      then have "cache ?s4 = cache ?s3"
      proof
        assume "\<exists>e. outcome = Rejects e"
        then obtain e where "outcome = Rejects e" ..
        then show ?thesis by (simp only: settle_rejects_cache)
      next
        assume "\<not> truthy (ttl (options s0))"
        then have "\<not> truthy (ttl (options ?s3))" unfolding opt3 .
        then show ?thesis by (rule settle_no_ttl_cache(1))
      qed
      with nocache3 have "map_of (cache ?s4) k = None" by (simp only:)
      then have "\<not> isCached k t ?s4" by (simp add: isCached_def)
      moreover from True have "\<not> (\<exists>v T. outcome = Resolves v \<and> ttl (options s0) = Some T \<and> T \<noteq> 0 \<and> t - t3 < T)"
        by auto
      ultimately show ?thesis by blast
    next
      case False
      then obtain v where out: "outcome = Resolves v" by (cases outcome) auto
      from False obtain T where T: "ttl (options s0) = Some T" "T \<noteq> 0"
        by (cases "ttl (options s0)") auto
      from T opt3 have tr: "truthy (ttl (options ?s3))" by simp
      have entry: "map_of (cache ?s4) k = Some \<lparr>result = v, timestamp = t3\<rparr>"
        using settle_resolves_lookup [OF fl1 tr, of v t3] key1 out by simp
      have "isCached k t ?s4 = (t - t3 < T)"
        using entry opt4 T by (simp add: isCached_def isCacheValid_def)
      with out T show ?thesis by auto
    qed
    have f: "fst (execute k (Thunk op3) early ?s4) = Value v
               \<and> invoked (snd (execute k (Thunk op3) early ?s4))
                   = invoked s0 @ [(k, Thunk op1), (k, Thunk op2)]"
      if out: "outcome = Resolves v" and hit: "isCached k early ?s4" for v
    proof -
      from hit e [of early] out obtain T where T: "ttl (options s0) = Some T" "T \<noteq> 0" "early - t3 < T"
        by auto
      from T opt3 have tr: "truthy (ttl (options ?s3))" by simp
      have entry: "map_of (cache ?s4) k = Some \<lparr>result = v, timestamp = t3\<rparr>"
        using settle_resolves_lookup [OF fl1 tr, of v t3] key1 out by simp
      from T opt4 have "isCacheValid (options ?s4) early \<lparr>result = v, timestamp = t3\<rparr>"
        by (simp add: isCacheValid_def)
      from execute_hit [OF entry this, of "Thunk op3"] log4 show ?thesis by simp
    qed
    from a b reg3 c fl2 log4 d e f show ?thesis by blast
  qed
  show "let p1 = length (promises s0);
           s1 = snd (execute k (Thunk op1) t1 s0);
           s2 = invalidate k s1;
           s3 = snd (execute k (Thunk op2) t2 s2);
           s4 = settle p1 outcome t3 s3 in
       map_of (pendingRequests s0) k = None \<and> \<not> isCached k t1 s0 \<longrightarrow>
         fst (execute k (Thunk op1) t1 s0) = Promise p1
         \<and> fst (execute k (Thunk op2) t2 s2) = Promise (Suc p1)
         \<and> map_of (pendingRequests s3) k = Some (Suc p1)
         \<and> \<not> isPending k s4
         \<and> in_flight (promises s4) (Suc p1)
         \<and> invoked s4 = invoked s0 @ [(k, Thunk op1), (k, Thunk op2)]
         \<and> (\<forall>t. isCached k t s4
                = (\<exists>v T. outcome = Resolves v \<and> ttl (options s0) = Some T \<and> T \<noteq> 0 \<and> t - t3 < T))
         \<and> (\<not> isCached k t4 s4 \<longrightarrow>
               fst (execute k (Thunk op3) t4 s4) = Promise (Suc (Suc p1))
               \<and> invoked (snd (execute k (Thunk op3) t4 s4))
                   = invoked s0 @ [(k, Thunk op1), (k, Thunk op2), (k, Thunk op3)])
         \<and> (\<forall>v. outcome = Resolves v \<and> isCached k early s4 \<longrightarrow>
               fst (execute k (Thunk op3) early s4) = Value v
               \<and> invoked (snd (execute k (Thunk op3) early s4))
                   = invoked s0 @ [(k, Thunk op1), (k, Thunk op2)])"
    unfolding Let_def by (intro impI, elim conjE, rule main)
qed

theorem stale_settlement_unregisters_witness:
  "in_flight (rc_promises (snd (rc_execute (Val ''k'') (Thunk ''op2'') (rc_clear (Val ''k'') (snd (rc_execute (Val ''k'') (Thunk ''op1'') (rc_new :: (string, string, string, string) RequestCoalescer))))))) 0
   \<and> map_of (rc_pendingRequests (snd (rc_execute (Val ''k'') (Thunk ''op2'') (rc_clear (Val ''k'') (snd (rc_execute (Val ''k'') (Thunk ''op1'') (rc_new :: (string, string, string, string) RequestCoalescer))))))) (Val ''k'') = Some 1
   \<and> map_of (rc_pendingRequests (rc_settle 0 (Resolves ''v1'') (snd (rc_execute (Val ''k'') (Thunk ''op2'') (rc_clear (Val ''k'') (snd (rc_execute (Val ''k'') (Thunk ''op1'') (rc_new :: (string, string, string, string) RequestCoalescer)))))))) (Val ''k'') = None
   \<and> in_flight (promises (snd (execute (Val ''k'') (Thunk ''op2'') 1 (invalidate (Val ''k'') (snd (execute (Val ''k'') (Thunk ''op1'') 0 (new_coalescer \<lparr>ttl = Some 1000, maxSize = None\<rparr> :: (string, string, string, string) CachedRequestCoalescer))))))) 0
   \<and> map_of (pendingRequests (snd (execute (Val ''k'') (Thunk ''op2'') 1 (invalidate (Val ''k'') (snd (execute (Val ''k'') (Thunk ''op1'') 0 (new_coalescer \<lparr>ttl = Some 1000, maxSize = None\<rparr> :: (string, string, string, string) CachedRequestCoalescer))))))) (Val ''k'') = Some 1
   \<and> map_of (pendingRequests (settle 0 (Resolves ''v1'') 2 (snd (execute (Val ''k'') (Thunk ''op2'') 1 (invalidate (Val ''k'') (snd (execute (Val ''k'') (Thunk ''op1'') 0 (new_coalescer \<lparr>ttl = Some 1000, maxSize = None\<rparr> :: (string, string, string, string) CachedRequestCoalescer)))))))) (Val ''k'') = None
   \<and> map_of (rc_pendingRequests (rc_new :: (string, string, string, string) RequestCoalescer)) (Val ''k'') = None
   \<and> \<not> rc_isPending (Val ''k'') (rc_settle 0 (Resolves ''v1'') (snd (rc_execute (Val ''k'') (Thunk ''op2'') (rc_clear (Val ''k'') (snd (rc_execute (Val ''k'') (Thunk ''op1'') (rc_new :: (string, string, string, string) RequestCoalescer)))))))
   \<and> in_flight (rc_promises (rc_settle 0 (Resolves ''v1'') (snd (rc_execute (Val ''k'') (Thunk ''op2'') (rc_clear (Val ''k'') (snd (rc_execute (Val ''k'') (Thunk ''op1'') (rc_new :: (string, string, string, string) RequestCoalescer)))))))) 1
   \<and> fst (rc_execute (Val ''k'') (Thunk ''op3'') (rc_settle 0 (Resolves ''v1'') (snd (rc_execute (Val ''k'') (Thunk ''op2'') (rc_clear (Val ''k'') (snd (rc_execute (Val ''k'') (Thunk ''op1'') (rc_new :: (string, string, string, string) RequestCoalescer)))))))) = Promise 2
   \<and> rc_invoked (snd (rc_execute (Val ''k'') (Thunk ''op3'') (rc_settle 0 (Resolves ''v1'') (snd (rc_execute (Val ''k'') (Thunk ''op2'') (rc_clear (Val ''k'') (snd (rc_execute (Val ''k'') (Thunk ''op1'') (rc_new :: (string, string, string, string) RequestCoalescer)))))))))
       = [((Val ''k''), Thunk ''op1''), ((Val ''k''), Thunk ''op2''), ((Val ''k''), Thunk ''op3'')]
   \<and> map_of (pendingRequests (new_coalescer \<lparr>ttl = Some 1000, maxSize = None\<rparr> :: (string, string, string, string) CachedRequestCoalescer)) (Val ''k'') = None
   \<and> \<not> isCached (Val ''k'') 0 (new_coalescer \<lparr>ttl = Some 1000, maxSize = None\<rparr> :: (string, string, string, string) CachedRequestCoalescer)
   \<and> \<not> isPending (Val ''k'') (settle 0 (Resolves ''v1'') 2 (snd (execute (Val ''k'') (Thunk ''op2'') 1 (invalidate (Val ''k'') (snd (execute (Val ''k'') (Thunk ''op1'') 0 (new_coalescer \<lparr>ttl = Some 1000, maxSize = None\<rparr> :: (string, string, string, string) CachedRequestCoalescer)))))))
   \<and> in_flight (promises (settle 0 (Resolves ''v1'') 2 (snd (execute (Val ''k'') (Thunk ''op2'') 1 (invalidate (Val ''k'') (snd (execute (Val ''k'') (Thunk ''op1'') 0 (new_coalescer \<lparr>ttl = Some 1000, maxSize = None\<rparr> :: (string, string, string, string) CachedRequestCoalescer)))))))) 1
   \<and> \<not> isCached (Val ''k'') 2000 (settle 0 (Resolves ''v1'') 2 (snd (execute (Val ''k'') (Thunk ''op2'') 1 (invalidate (Val ''k'') (snd (execute (Val ''k'') (Thunk ''op1'') 0 (new_coalescer \<lparr>ttl = Some 1000, maxSize = None\<rparr> :: (string, string, string, string) CachedRequestCoalescer)))))))
   \<and> fst (execute (Val ''k'') (Thunk ''op3'') 2000 (settle 0 (Resolves ''v1'') 2 (snd (execute (Val ''k'') (Thunk ''op2'') 1 (invalidate (Val ''k'') (snd (execute (Val ''k'') (Thunk ''op1'') 0 (new_coalescer \<lparr>ttl = Some 1000, maxSize = None\<rparr> :: (string, string, string, string) CachedRequestCoalescer)))))))) = Promise 2
   \<and> invoked (snd (execute (Val ''k'') (Thunk ''op3'') 2000 (settle 0 (Resolves ''v1'') 2 (snd (execute (Val ''k'') (Thunk ''op2'') 1 (invalidate (Val ''k'') (snd (execute (Val ''k'') (Thunk ''op1'') 0 (new_coalescer \<lparr>ttl = Some 1000, maxSize = None\<rparr> :: (string, string, string, string) CachedRequestCoalescer)))))))))
       = [((Val ''k''), Thunk ''op1''), ((Val ''k''), Thunk ''op2''), ((Val ''k''), Thunk ''op3'')]
   \<and> isCached (Val ''k'') 3 (settle 0 (Resolves ''v1'') 2 (snd (execute (Val ''k'') (Thunk ''op2'') 1 (invalidate (Val ''k'') (snd (execute (Val ''k'') (Thunk ''op1'') 0 (new_coalescer \<lparr>ttl = Some 1000, maxSize = None\<rparr> :: (string, string, string, string) CachedRequestCoalescer)))))))
   \<and> fst (execute (Val ''k'') (Thunk ''op3'') 3 (settle 0 (Resolves ''v1'') 2 (snd (execute (Val ''k'') (Thunk ''op2'') 1 (invalidate (Val ''k'') (snd (execute (Val ''k'') (Thunk ''op1'') 0 (new_coalescer \<lparr>ttl = Some 1000, maxSize = None\<rparr> :: (string, string, string, string) CachedRequestCoalescer)))))))) = Value ''v1''
   \<and> invoked (snd (execute (Val ''k'') (Thunk ''op3'') 3 (settle 0 (Resolves ''v1'') 2 (snd (execute (Val ''k'') (Thunk ''op2'') 1 (invalidate (Val ''k'') (snd (execute (Val ''k'') (Thunk ''op1'') 0 (new_coalescer \<lparr>ttl = Some 1000, maxSize = None\<rparr> :: (string, string, string, string) CachedRequestCoalescer)))))))))
       = [((Val ''k''), Thunk ''op1''), ((Val ''k''), Thunk ''op2'')]"
proof -
  let ?k = "Val ''k'' :: string js"
  let ?rc0 = "rc_new :: (string, string, string, string) RequestCoalescer"
  let ?rc3 = "snd (rc_execute ?k (Thunk ''op2'') (rc_clear ?k (snd (rc_execute ?k (Thunk ''op1'') ?rc0))))"
  let ?rc4 = "rc_settle 0 (Resolves ''v1'') ?rc3"
  let ?s0 = "new_coalescer \<lparr>ttl = Some 1000, maxSize = None\<rparr> :: (string, string, string, string) CachedRequestCoalescer"
  let ?s3 = "snd (execute ?k (Thunk ''op2'') 1 (invalidate ?k (snd (execute ?k (Thunk ''op1'') 0 ?s0))))"
  let ?s4 = "settle 0 (Resolves ''v1'') 2 ?s3"
  have len: "length (rc_promises ?rc0) = 0" "length (promises ?s0) = 0"
    by (simp_all add: rc_new_def new_coalescer_def)
  have logs: "rc_invoked ?rc0 = []" "invoked ?s0 = []"
    by (simp_all add: rc_new_def new_coalescer_def)
  have key: "pkey (rc_promises ?rc3 ! 0) = ?k" "pkey (promises ?s3 ! 0) = ?k"
    by (simp_all add: rc_eval coalescer_eval)
  have h1: "in_flight (rc_promises ?rc3) 0" by (simp add: rc_eval)
  have h2: "map_of (rc_pendingRequests ?rc3) ?k = Some 1" by (simp add: rc_eval)
  have h3: "in_flight (promises ?s3) 0" by (simp add: coalescer_eval)
  have h4: "map_of (pendingRequests ?s3) ?k = Some 1" by (simp add: coalescer_eval)
  have h5: "map_of (rc_pendingRequests ?rc0) ?k = None" by (simp add: rc_eval)
  have h6: "map_of (pendingRequests ?s0) ?k = None" by (simp add: coalescer_eval)
  have h7: "\<not> isCached ?k 0 ?s0" by (simp add: coalescer_eval)
  have h8: "\<not> isCached ?k 2000 ?s4" by (simp add: coalescer_eval)
  have h9: "isCached ?k 3 ?s4" by (simp add: coalescer_eval)
  note inst = stale_settlement_unregisters
    [where rc = "?rc3" and p = 0 and p' = 1 and outcome = "Resolves ''v1''" and s = "?s3" and now = 2
       and ?rc0.0 = "?rc0" and k = "?k" and ?op1.0 = "''op1''" and ?op2.0 = "''op2''" and ?op3.0 = "''op3''"
       and ?s0.0 = "?s0" and ?t1.0 = 0 and ?t2.0 = 1 and ?t3.0 = 2 and ?t4.0 = 2000 and early = 3,
     unfolded Let_def len logs key append_Nil]
  note A = inst [THEN conjunct1, THEN mp, OF conjI [OF h1 h2]]
  note B = inst [THEN conjunct2, THEN conjunct1, THEN mp, OF conjI [OF h3 h4]]
  note C = inst [THEN conjunct2, THEN conjunct2, THEN conjunct1, THEN mp, OF h5]
  note D = inst [THEN conjunct2, THEN conjunct2, THEN conjunct2, THEN mp, OF conjI [OF h6 h7]]
  from C have c1: "\<not> rc_isPending ?k ?rc4" by (elim conjE)
  from C have c2: "in_flight (rc_promises ?rc4) (Suc 0)" by (elim conjE)
  from C have c3: "fst (rc_execute ?k (Thunk ''op3'') ?rc4) = Promise (Suc (Suc 0))" by (elim conjE)
  from C have c4: "rc_invoked (snd (rc_execute ?k (Thunk ''op3'') ?rc4))
       = [(?k, Thunk ''op1''), (?k, Thunk ''op2''), (?k, Thunk ''op3'')]" by (elim conjE)
  from D have d1: "\<not> isPending ?k ?s4" by (elim conjE)
  from D have d2: "in_flight (promises ?s4) (Suc 0)" by (elim conjE)
  from D have d3: "\<not> isCached ?k 2000 ?s4 \<longrightarrow>
               fst (execute ?k (Thunk ''op3'') 2000 ?s4) = Promise (Suc (Suc 0))
               \<and> invoked (snd (execute ?k (Thunk ''op3'') 2000 ?s4))
                   = [(?k, Thunk ''op1''), (?k, Thunk ''op2''), (?k, Thunk ''op3'')]" by (elim conjE)
  from D have d4: "\<forall>v. (Resolves ''v1'' :: (string, string) settlement) = Resolves v \<and> isCached ?k 3 ?s4 \<longrightarrow>
               fst (execute ?k (Thunk ''op3'') 3 ?s4) = Value v
               \<and> invoked (snd (execute ?k (Thunk ''op3'') 3 ?s4))
                   = [(?k, Thunk ''op1''), (?k, Thunk ''op2'')]" by (elim conjE)
  note d3' = d3 [THEN mp, OF h8]
  note d4' = d4 [THEN spec, of "''v1''", THEN mp, OF conjI [OF refl h9]]
  have n1: "Suc 0 = 1" and n2: "Suc (Suc 0) = 2" by simp_all
  show ?thesis
    by (intro conjI) (fact h1 h2 A B h3 h4 h5 c1 c2 [unfolded n1] c3 [unfolded n2] c4 h6 h7 d1 d2 [unfolded n1] h8
        d3' [THEN conjunct1, unfolded n2] d3' [THEN conjunct2] h9 d4' [THEN conjunct1] d4' [THEN conjunct2])+
qed

text \<open>
  C10 as stated fails on the caching coalescer when the first request resolves with
  \<^verbatim>\<open>ttl\<close> configured: the further call is answered from the cache and starts no third
  request.
\<close>

theorem stale_settlement_then_cache_hit:
  "replies [Execute (Val ''k'') (Thunk ''f1'') 0, Invalidate (Val ''k''), Execute (Val ''k'') (Thunk ''f2'') 1,
            Settle 0 (Resolves ''v1'') 2, Execute (Val ''k'') (Thunk ''f3'') 3]
      (new_coalescer \<lparr>ttl = Some 1000, maxSize = None\<rparr> :: (string, string, string, string) CachedRequestCoalescer)
     = [(Val ''k'', Promise 0), (Val ''k'', Promise 1), (Val ''k'', Value ''v1'')]
   \<and> invoked (run [Execute (Val ''k'') (Thunk ''f1'') 0, Invalidate (Val ''k''), Execute (Val ''k'') (Thunk ''f2'') 1,
            Settle 0 (Resolves ''v1'') 2, Execute (Val ''k'') (Thunk ''f3'') 3]
      (new_coalescer \<lparr>ttl = Some 1000, maxSize = None\<rparr> :: (string, string, string, string) CachedRequestCoalescer))
     = [(Val ''k'', Thunk ''f1''), (Val ''k'', Thunk ''f2'')]
   \<and> in_flight (promises (run [Execute (Val ''k'') (Thunk ''f1'') 0, Invalidate (Val ''k''), Execute (Val ''k'') (Thunk ''f2'') 1,
            Settle 0 (Resolves ''v1'') 2, Execute (Val ''k'') (Thunk ''f3'') 3]
      (new_coalescer \<lparr>ttl = Some 1000, maxSize = None\<rparr> :: (string, string, string, string) CachedRequestCoalescer))) 1"
  by (simp add: coalescer_eval)

end
